theory Spec2Isabelle
  imports Complex_Main "HOL-Library.Monad_Syntax" "HOL-Library.Log_Nat"
begin

section \<open>Data model\<close>

text \<open>
  Tile coordinates are JavaScript numbers that only ever hold integers (grid indices), so a
  position is a pair \<open>(col, row)\<close> of integers. Accuracy values are JavaScript doubles: a
  finite double is a rational, and the additions of the code round as IEEE 754 prescribes
  (section on JavaScript numbers below).
\<close>

type_synonym pos = "int \<times> int"

text \<open>Units are JavaScript objects shared by reference: a reference is an address into a store.\<close>

type_synonym uref = nat

text \<open>The string tags of \<open>tile.coverType\<close> and of the \<open>coverType\<close> field of a line-of-sight report.\<close>

datatype cover = CoverNone | CoverHalf | CoverFull | CoverBlocked

text \<open>\<open>CONSTANTS.UNIT_STATUS\<close>.\<close>

datatype status = Ready | Activated | Overwatch | Hunkered | Dead

text \<open>\<open>CONSTANTS.GAME_PHASES\<close>.\<close>

datatype phase = Loading | PlayerSelectUnit | PlayerMovement | PlayerAction | PlayerTargetSelect
  | CombatAnimation | AIThinking | AIActing | TurnTransition | GameOver

text \<open>The attack type is a string: \<open>'ranged'\<close>, \<open>'melee'\<close>, or anything else.\<close>

datatype attackType = Ranged | Melee | OtherAttack

record tile =
  walkable :: bool
  coverType :: cover
  objectType :: "string option"
  occupant :: "uref option"
  spawnZone :: "string option"

record unit =
  faction :: string
  tile :: pos
  hp :: int
  maxHp :: int
  ap :: int
  maxAp :: int
  activated :: bool
  alive :: bool
  status :: status
  facing :: pos
  overwatchCone :: "pos option"

text \<open>
  \<open>GridManager\<close>: the constructor fills \<open>tiles[c][r]\<close> for every in-bounds cell; every read
  goes through the bounds check of \<open>getTile\<close>.
\<close>

record grid =
  gridWidth :: int
  gridHeight :: int
  tiles :: "int \<Rightarrow> int \<Rightarrow> tile"

text \<open>
  The session: the store of unit objects, the \<open>units\<close> array of \<open>UnitManager\<close> (references in
  creation order), the grid, the fields of \<open>gameState\<close> the core reads, and the movement
  tiles \<open>_selectedMoveTiles\<close> (position and cost) kept by \<open>TurnManager\<close>.
\<close>

record game =
  heap :: "uref \<Rightarrow> unit"
  units :: "uref list"
  grid :: grid
  playerFaction :: string
  aiFaction :: string
  phase :: phase
  activeUnit :: "uref option"
  selectedMoveTiles :: "(pos \<times> int) list"

section \<open>Grid math (shared utilities)\<close>

text \<open>Chebyshev distance.\<close>

definition tileDistance :: "pos \<Rightarrow> pos \<Rightarrow> int" where
  "tileDistance a b = max \<bar>fst a - fst b\<bar> \<bar>snd a - snd b\<bar>"

definition getTileDirection :: "pos \<Rightarrow> pos \<Rightarrow> pos" where
  "getTileDirection a b =
     (let dx = fst b - fst a; dy = snd b - snd a
      in (if dx = 0 then 0 else if dx > 0 then 1 else - 1,
          if dy = 0 then 0 else if dy > 0 then 1 else - 1))"

definition clamp :: "rat \<Rightarrow> rat \<Rightarrow> rat \<Rightarrow> rat" where
  "clamp v lo hi = max lo (min hi v)"

text \<open>
  \<open>bresenhamLine\<close>: the \<open>while (true)\<close> loop. Not returning is the value \<open>None\<close>. The
  arguments \<open>x1 y1 dx dy sx sy\<close> are the constants of the loop; \<open>x0 y0 err\<close> and the array
  \<open>acc\<close> of tiles pushed so far are its variables.
\<close>

partial_function (option) bresenhamLoop ::
  "int \<Rightarrow> int \<Rightarrow> int \<Rightarrow> int \<Rightarrow> int \<Rightarrow> int \<Rightarrow> int \<Rightarrow> int \<Rightarrow> int \<Rightarrow> pos list \<Rightarrow> pos list option"
where
  "bresenhamLoop x1 y1 dx dy sx sy x0 y0 err acc =
     (if x0 = x1 \<and> y0 = y1 then Some acc
      else
        let e2 = 2 * err;
            errA = (if e2 > - dy then err - dy else err);
            xA = (if e2 > - dy then x0 + sx else x0);
            errB = (if e2 < dx then errA + dx else errA);
            yB = (if e2 < dx then y0 + sy else y0)
        in bresenhamLoop x1 y1 dx dy sx sy xA yB errB (acc @ [(xA, yB)]))"

definition bresenhamLine :: "pos \<Rightarrow> pos \<Rightarrow> pos list option" where
  "bresenhamLine start end' =
     (let x0 = fst start; y0 = snd start; x1 = fst end'; y1 = snd end';
          dx = \<bar>x1 - x0\<bar>; dy = \<bar>y1 - y0\<bar>;
          sx = (if x0 < x1 then 1 else - 1);
          sy = (if y0 < y1 then 1 else - 1)
      in bresenhamLoop x1 y1 dx dy sx sy x0 y0 (dx - dy) [])"

text \<open>The eight neighbours, in the order of the two nested \<open>for\<close> loops, clipped to the grid.\<close>

definition getNeighbors :: "int \<Rightarrow> int \<Rightarrow> int \<Rightarrow> int \<Rightarrow> pos list" where
  "getNeighbors col row gridWidth' gridHeight' =
     concat (map (\<lambda>dc. concat (map (\<lambda>dr.
        if dc = 0 \<and> dr = 0 then []
        else let nc = col + dc; nr = row + dr
             in if nc \<ge> 0 \<and> nc < gridWidth' \<and> nr \<ge> 0 \<and> nr < gridHeight' then [(nc, nr)] else [])
       [- 1, 0, 1])) [- 1, 0, 1])"

section \<open>JavaScript numbers\<close>

text \<open>
  A finite JavaScript number is an IEEE 754 binary64 value: a rational \<open>m * 2 ^ e\<close> with an
  integer \<open>m\<close> of at most 53 bits. A decimal literal denotes the binary64 value nearest to it,
  and \<open>a + b\<close> is the binary64 value nearest to the exact sum, ties going to the even
  significand in both cases.

  \<open>binExponent q\<close> is the exponent \<open>e\<close> with \<open>2 ^ e \<le> \<bar>q\<bar> < 2 ^ (e + 1)\<close>, for \<open>q \<noteq> 0\<close>. The
  binary64 values around \<open>q\<close> are \<open>2 ^ (e - 52)\<close> apart, and \<open>2 ^ (- 1074)\<close> apart in the
  subnormal range. Results beyond the largest finite double (which JavaScript turns into
  \<open>Infinity\<close>) are not represented: the numbers added by this program are hit chances and
  their modifiers, below 2 in magnitude.
\<close>

definition roundTiesEven :: "rat \<Rightarrow> int" where
  "roundTiesEven q =
     (let f = \<lfloor>q\<rfloor>; d = q - of_int f
      in if d < 1 / 2 then f else if 1 / 2 < d then f + 1 else if even f then f else f + 1)"

definition pow2 :: "int \<Rightarrow> rat" where
  "pow2 e = (if 0 \<le> e then 2 ^ nat e else 1 / 2 ^ nat (- e))"

definition binExponent :: "rat \<Rightarrow> int" where
  "binExponent q =
     (if 1 \<le> \<bar>q\<bar> then bitlen \<lfloor>\<bar>q\<bar>\<rfloor> - 1 else - bitlen (\<lceil>1 / \<bar>q\<bar>\<rceil> - 1))"

definition roundDouble :: "rat \<Rightarrow> rat" where
  "roundDouble q =
     (if q = 0 then 0
      else let ulp = pow2 (max (binExponent q) (- 1022) - 52)
           in of_int (roundTiesEven (q / ulp)) * ulp)"

text \<open>\<open>a + b\<close> on JavaScript numbers.\<close>

definition dadd :: "rat \<Rightarrow> rat \<Rightarrow> rat" where
  "dadd a b = roundDouble (a + b)"

section \<open>Constants\<close>

text \<open>
  The literals \<open>0.70\<close>, \<open>0.85\<close>, \<open>0.15\<close>, \<open>0.05\<close> and \<open>0.95\<close> are not binary fractions and are
  rounded; \<open>-0.25\<close> and \<open>-0.50\<close> are binary64 values as they stand.
\<close>

definition rangedAccuracy :: rat where "rangedAccuracy = roundDouble (70 / 100)"
definition meleeAccuracy :: rat where "meleeAccuracy = roundDouble (85 / 100)"
definition rangedDamage :: int where "rangedDamage = 4"
definition meleeDamage :: int where "meleeDamage = 5"
definition rangedRange :: int where "rangedRange = 8"
definition meleeRange :: int where "meleeRange = 1"
definition movement :: int where "movement = 4"
definition COVER_BONUS_half :: rat where "COVER_BONUS_half = - (25 / 100)"
definition COVER_BONUS_full :: rat where "COVER_BONUS_full = - (50 / 100)"
definition FLANKING_BONUS :: rat where "FLANKING_BONUS = roundDouble (15 / 100)"
definition MIN_HIT_CHANCE :: rat where "MIN_HIT_CHANCE = roundDouble (5 / 100)"
definition MAX_HIT_CHANCE :: rat where "MAX_HIT_CHANCE = roundDouble (95 / 100)"
definition OVERWATCH_range :: int where "OVERWATCH_range = 8"

section \<open>Tiles, occupancy, line of sight and cover (GridManager)\<close>

definition getTile :: "grid \<Rightarrow> int \<Rightarrow> int \<Rightarrow> tile option" where
  "getTile g col row =
     (if col < 0 \<or> col \<ge> gridWidth g \<or> row < 0 \<or> row \<ge> gridHeight g then None
      else Some (tiles g col row))"

definition setOccupant :: "grid \<Rightarrow> int \<Rightarrow> int \<Rightarrow> uref \<Rightarrow> grid" where
  "setOccupant g col row u =
     (case getTile g col row of
        None \<Rightarrow> g
      | Some t \<Rightarrow> g\<lparr>tiles := (tiles g)(col := (tiles g col)(row := t\<lparr>occupant := Some u\<rparr>))\<rparr>)"

definition clearOccupant :: "grid \<Rightarrow> int \<Rightarrow> int \<Rightarrow> grid" where
  "clearOccupant g col row =
     (case getTile g col row of
        None \<Rightarrow> g
      | Some t \<Rightarrow> g\<lparr>tiles := (tiles g)(col := (tiles g col)(row := t\<lparr>occupant := None\<rparr>))\<rparr>)"

definition isWalkable :: "grid \<Rightarrow> int \<Rightarrow> int \<Rightarrow> bool" where
  "isWalkable g col row =
     (case getTile g col row of
        None \<Rightarrow> False
      | Some t \<Rightarrow> walkable t \<and> occupant t = None)"

definition isWalkableIgnoreOccupant :: "grid \<Rightarrow> int \<Rightarrow> int \<Rightarrow> bool" where
  "isWalkableIgnoreOccupant g col row =
     (case getTile g col row of
        None \<Rightarrow> False
      | Some t \<Rightarrow> walkable t)"

text \<open>Truthiness of \<open>tile.objectType\<close>: neither \<open>null\<close> nor the empty string.\<close>

definition hasObject :: "tile \<Rightarrow> bool" where
  "hasObject t = (case objectType t of None \<Rightarrow> False | Some s \<Rightarrow> s \<noteq> [])"

text \<open>The candidate tiles of \<open>getCoverBetween\<close>, in the order they are pushed.\<close>

definition checkPositions :: "pos \<Rightarrow> pos \<Rightarrow> pos list" where
  "checkPositions dir targetTile =
     (if fst dir \<noteq> 0 then [(fst targetTile - fst dir, snd targetTile)] else [])
     @ (if snd dir \<noteq> 0 then [(fst targetTile, snd targetTile - snd dir)] else [])
     @ (if fst dir \<noteq> 0 \<and> snd dir \<noteq> 0
        then [(fst targetTile - fst dir, snd targetTile - snd dir)] else [])"

text \<open>One round of the loop of \<open>getCoverBetween\<close> over \<open>(bestCover, bestPenalty)\<close>.\<close>

definition coverStep :: "grid \<Rightarrow> pos \<Rightarrow> cover \<times> rat \<Rightarrow> cover \<times> rat" where
  "coverStep g p best =
     (case getTile g (fst p) (snd p) of
        None \<Rightarrow> best
      | Some t \<Rightarrow>
          if coverType t = CoverFull \<and> hasObject t then
            (if \<bar>COVER_BONUS_full\<bar> > \<bar>snd best\<bar> then (CoverFull, COVER_BONUS_full) else best)
          else if coverType t = CoverHalf \<and> hasObject t then
            (if \<bar>COVER_BONUS_half\<bar> > \<bar>snd best\<bar> then (CoverHalf, COVER_BONUS_half) else best)
          else best)"

text \<open>Returns \<open>(coverType, penalty)\<close>.\<close>

definition getCoverBetween :: "grid \<Rightarrow> pos \<Rightarrow> pos \<Rightarrow> cover \<times> rat" where
  "getCoverBetween g attackerTile targetTile =
     fold (coverStep g) (checkPositions (getTileDirection attackerTile targetTile) targetTile)
       (CoverNone, 0)"

record los =
  clear :: bool
  coverPenalty :: rat
  losCoverType :: cover

text \<open>The blocking loop of \<open>checkLOS\<close>: \<open>True\<close> is its early \<open>return\<close>.\<close>

fun losBlocked :: "grid \<Rightarrow> int \<Rightarrow> int \<Rightarrow> pos list \<Rightarrow> bool" where
  "losBlocked g toCol toRow [] = False"
| "losBlocked g toCol toRow (lt # rest) =
     (if fst lt = toCol \<and> snd lt = toRow then losBlocked g toCol toRow rest
      else case getTile g (fst lt) (snd lt) of
             None \<Rightarrow> losBlocked g toCol toRow rest
           | Some t \<Rightarrow>
               if coverType t = CoverFull \<and> hasObject t then True
               else losBlocked g toCol toRow rest)"

definition checkLOS :: "grid \<Rightarrow> int \<Rightarrow> int \<Rightarrow> int \<Rightarrow> int \<Rightarrow> los option" where
  "checkLOS g fromCol fromRow toCol toRow =
     do {
       lineTiles \<leftarrow> bresenhamLine (fromCol, fromRow) (toCol, toRow);
       if losBlocked g toCol toRow lineTiles
       then Some \<lparr>clear = False, coverPenalty = 0, losCoverType = CoverBlocked\<rparr>
       else
         let coverResult = getCoverBetween g (fromCol, fromRow) (toCol, toRow)
         in Some \<lparr>clear = True, coverPenalty = snd coverResult, losCoverType = fst coverResult\<rparr>
     }"

definition checkFlanking :: "pos \<Rightarrow> pos \<Rightarrow> pos option \<Rightarrow> bool" where
  "checkFlanking attackerTile targetTile targetFacing =
     (case targetFacing of
        None \<Rightarrow> False
      | Some f \<Rightarrow>
          let toAttacker = getTileDirection targetTile attackerTile;
              dot = fst f * fst toAttacker + snd f * snd toAttacker
          in dot \<le> 0)"

section \<open>Movement range and path search (GridManager)\<close>

text \<open>The test a neighbour must pass in \<open>getMovementRange\<close> once it is known to be unvisited.\<close>

definition rangeStepOk :: "grid \<Rightarrow> pos \<Rightarrow> pos \<Rightarrow> bool" where
  "rangeStepOk g current neighbor =
     (if \<not> isWalkable g (fst neighbor) (snd neighbor) then False
      else
        let dc = fst neighbor - fst current; dr = snd neighbor - snd current
        in if dc \<noteq> 0 \<and> dr \<noteq> 0 then
             (if \<not> isWalkableIgnoreOccupant g (fst current + dc) (snd current)
                 \<or> \<not> isWalkableIgnoreOccupant g (fst current) (snd current + dr)
              then False else True)
           else True)"

text \<open>One round of the \<open>for\<close> loop over the neighbours, on \<open>(visited, queue)\<close>.\<close>

definition rangeVisit ::
  "grid \<Rightarrow> pos \<times> int \<Rightarrow> pos \<Rightarrow> pos set \<times> (pos \<times> int) list \<Rightarrow> pos set \<times> (pos \<times> int) list" where
  "rangeVisit g current neighbor s =
     (if neighbor \<in> fst s then s
      else if \<not> rangeStepOk g (fst current) neighbor then s
      else (insert neighbor (fst s), snd s @ [(neighbor, snd current + 1)]))"

definition inBounds :: "grid \<Rightarrow> pos set" where
  "inBounds g = {0 ..< gridWidth g} \<times> {0 ..< gridHeight g}"

lemma finite_inBounds: "finite (inBounds g)"
  by (simp add: inBounds_def)

lemma app_if_single: "(if b then [x] else []) @ ys = (if b then x # ys else ys)"
  by simp

lemma getNeighbors_filter:
  "getNeighbors c r w h =
     filter (\<lambda>p. fst p \<ge> 0 \<and> fst p < w \<and> snd p \<ge> 0 \<and> snd p < h)
       [(c - 1, r - 1), (c - 1, r), (c - 1, r + 1), (c, r - 1), (c, r + 1),
        (c + 1, r - 1), (c + 1, r), (c + 1, r + 1)]"
  by (simp add: getNeighbors_def Let_def app_if_single)

lemma chebyshev_one:
  "max \<bar>c - a\<bar> \<bar>r - b\<bar> = (1::int) \<longleftrightarrow>
     (a = c - 1 \<or> a = c \<or> a = c + 1) \<and> (b = r - 1 \<or> b = r \<or> b = r + 1) \<and> \<not> (a = c \<and> b = r)"
  by (simp add: max_def abs_if split: if_splits) presburger

lemma getNeighbors_set:
  "set (getNeighbors c r w h) =
     {p. 0 \<le> fst p \<and> fst p < w \<and> 0 \<le> snd p \<and> snd p < h \<and> tileDistance (c, r) p = 1}"
proof -
  have "p \<in> set (getNeighbors c r w h) \<longleftrightarrow>
        0 \<le> fst p \<and> fst p < w \<and> 0 \<le> snd p \<and> snd p < h \<and> tileDistance (c, r) p = 1" for p
  proof (cases p)
    case (Pair a b)
    have "p \<in> set (getNeighbors c r w h) \<longleftrightarrow>
          (0 \<le> a \<and> a < w \<and> 0 \<le> b \<and> b < h)
          \<and> (a, b) \<in> {(c - 1, r - 1), (c - 1, r), (c - 1, r + 1), (c, r - 1), (c, r + 1),
                (c + 1, r - 1), (c + 1, r), (c + 1, r + 1)}"
      unfolding getNeighbors_filter Pair set_filter by auto
    also have "(a, b) \<in> {(c - 1, r - 1), (c - 1, r), (c - 1, r + 1), (c, r - 1), (c, r + 1),
                (c + 1, r - 1), (c + 1, r), (c + 1, r + 1)}
              \<longleftrightarrow> tileDistance (c, r) (a, b) = 1"
      unfolding tileDistance_def fst_conv snd_conv chebyshev_one by auto
    finally show ?thesis by (simp add: Pair)
  qed
  then show ?thesis by blast
qed

lemma getNeighbors_distinct: "distinct (getNeighbors c r w h)"
  unfolding getNeighbors_filter by (rule distinct_filter) simp

lemma getNeighbors_inBounds: "set (getNeighbors c r (gridWidth g) (gridHeight g)) \<subseteq> inBounds g"
  by (auto simp: getNeighbors_set inBounds_def)

lemma fold_rangeVisit:
  "distinct nbs \<Longrightarrow>
   fold (rangeVisit g cur) nbs (v, q) =
     (v \<union> set (filter (\<lambda>n. n \<notin> v \<and> rangeStepOk g (fst cur) n) nbs),
      q @ map (\<lambda>n. (n, snd cur + 1)) (filter (\<lambda>n. n \<notin> v \<and> rangeStepOk g (fst cur) n) nbs))"
proof (induction nbs arbitrary: v q)
  case Nil
  show ?case by simp
next
  case (Cons n nbs)
  have *: "filter (\<lambda>m. m \<noteq> n \<and> m \<notin> v \<and> rangeStepOk g (fst cur) m) nbs
         = filter (\<lambda>m. m \<notin> v \<and> rangeStepOk g (fst cur) m) nbs"
    using Cons.prems by (intro filter_cong) auto
  from Cons.prems have d: "distinct nbs" by simp
  show ?case
  proof (cases "n \<in> v \<or> \<not> rangeStepOk g (fst cur) n")
    case True
    then have "rangeVisit g cur n (v, q) = (v, q)" by (auto simp: rangeVisit_def)
    with True show ?thesis by (auto simp: Cons.IH [OF d])
  next
    case False
    then have "rangeVisit g cur n (v, q) = (insert n v, q @ [(n, snd cur + 1)])"
      by (auto simp: rangeVisit_def)
    with False show ?thesis by (auto simp: Cons.IH [OF d] *)
  qed
qed

text \<open>Each round of the outer loop either marks a new tile of the grid as visited or shortens the queue.\<close>

lemma rangeVisit_measure:
  assumes "s = fold (rangeVisit g current)
                 (getNeighbors c r (gridWidth g) (gridHeight g)) (visited, rest)"
  shows "card (inBounds g - fst s) < card (inBounds g - visited)
         \<or> (card (inBounds g - fst s) = card (inBounds g - visited) \<and> length (snd s) = length rest)"
proof -
  let ?nbs = "getNeighbors c r (gridWidth g) (gridHeight g)"
  let ?new = "filter (\<lambda>n. n \<notin> visited \<and> rangeStepOk g (fst current) n) ?nbs"
  have s: "s = (visited \<union> set ?new, rest @ map (\<lambda>n. (n, snd current + 1)) ?new)"
    unfolding assms by (rule fold_rangeVisit [OF getNeighbors_distinct])
  show ?thesis
  proof (cases "?new = []")
    case True
    then show ?thesis unfolding s by simp
  next
    case False
    then obtain x where x: "x \<in> set ?new" by (cases ?new) auto
    then have "x \<in> inBounds g" "x \<notin> visited" using getNeighbors_inBounds [of c r g] by auto
    then have "inBounds g - (visited \<union> set ?new) \<subset> inBounds g - visited" using x by blast
    then have "card (inBounds g - (visited \<union> set ?new)) < card (inBounds g - visited)"
      by (intro psubset_card_mono finite_Diff finite_inBounds)
    then show ?thesis unfolding s by simp
  qed
qed

text \<open>
  The \<open>while\<close> loop of \<open>getMovementRange\<close> on \<open>queue\<close>, \<open>visited\<close> and \<open>reachable\<close>; a queue
  entry is a position with its cost. The keys \<open>"col,row"\<close> of the \<open>visited\<close> set are
  modelled by the positions themselves.
\<close>

function rangeLoop ::
  "grid \<Rightarrow> int \<Rightarrow> (pos \<times> int) list \<Rightarrow> pos set \<Rightarrow> (pos \<times> int) list \<Rightarrow> (pos \<times> int) list" where
  "rangeLoop g moveRange [] visited reachable = reachable"
| "rangeLoop g moveRange (current # rest) visited reachable =
     (let reachable' = (if snd current > 0 then reachable @ [current] else reachable)
      in if snd current \<ge> moveRange then rangeLoop g moveRange rest visited reachable'
         else
           let s = fold (rangeVisit g current)
                     (getNeighbors (fst (fst current)) (snd (fst current))
                        (gridWidth g) (gridHeight g))
                     (visited, rest)
           in rangeLoop g moveRange (snd s) (fst s) reachable')"
  by pat_completeness auto
termination
proof (relation "inv_image (less_than <*lex*> less_than)
         (\<lambda>(g, moveRange, queue, visited, reachable).
            (card (inBounds g - visited), length queue))", goal_cases)
  case 1
  show ?case by (intro wf_inv_image wf_lex_prod wf_less_than)
next
  case (2 g moveRange current rest visited reachable reachable')
  show ?case by simp
next
  case (3 g moveRange current rest visited reachable reachable' s)
  from rangeVisit_measure [OF 3(3)] show ?case by auto
qed

definition getMovementRange :: "grid \<Rightarrow> int \<Rightarrow> int \<Rightarrow> int \<Rightarrow> (pos \<times> int) list" where
  "getMovementRange g startCol startRow moveRange =
     rangeLoop g moveRange [((startCol, startRow), 0)] {(startCol, startRow)} []"

text \<open>
  \<open>_findPathBFS\<close>. The test a neighbour must pass once it is known to be unvisited; \<open>endp\<close>
  is the destination.
\<close>

definition pathStepOk :: "grid \<Rightarrow> pos \<Rightarrow> bool \<Rightarrow> pos \<Rightarrow> pos \<Rightarrow> bool" where
  "pathStepOk g endp allowDestinationOccupied current neighbor =
     (let isDestination = (fst neighbor = fst endp \<and> snd neighbor = snd endp);
          walkable' = (if isDestination \<and> allowDestinationOccupied
                       then isWalkableIgnoreOccupant g (fst neighbor) (snd neighbor)
                       else isWalkable g (fst neighbor) (snd neighbor))
      in if \<not> walkable' then False
         else
           let dc = fst neighbor - fst current; dr = snd neighbor - snd current
           in if dc \<noteq> 0 \<and> dr \<noteq> 0 then
                (if \<not> isWalkableIgnoreOccupant g (fst current + dc) (snd current)
                    \<or> \<not> isWalkableIgnoreOccupant g (fst current) (snd current + dr)
                 then False else True)
              else True)"

text \<open>
  The \<open>for\<close> loop over the neighbours of \<open>current\<close>; the first component of the result is
  \<open>found\<close>, set when the loop leaves through its \<open>break\<close>.
\<close>

fun pathNeighbors ::
  "grid \<Rightarrow> pos \<Rightarrow> bool \<Rightarrow> pos \<Rightarrow> pos list \<Rightarrow> pos list \<Rightarrow> pos set \<Rightarrow> (pos \<rightharpoonup> pos)
     \<Rightarrow> bool \<times> pos list \<times> pos set \<times> (pos \<rightharpoonup> pos)" where
  "pathNeighbors g endp allow current [] queue visited cameFrom =
     (False, queue, visited, cameFrom)"
| "pathNeighbors g endp allow current (neighbor # rest) queue visited cameFrom =
     (if neighbor \<in> visited then pathNeighbors g endp allow current rest queue visited cameFrom
      else if \<not> pathStepOk g endp allow current neighbor
      then pathNeighbors g endp allow current rest queue visited cameFrom
      else
        let visited' = insert neighbor visited;
            cameFrom' = cameFrom(neighbor \<mapsto> current)
        in if fst neighbor = fst endp \<and> snd neighbor = snd endp
           then (True, queue, visited', cameFrom')
           else pathNeighbors g endp allow current rest (queue @ [neighbor]) visited' cameFrom')"

text \<open>The \<open>while (queue.length > 0 && !found)\<close> loop; it returns \<open>found\<close> and \<open>cameFrom\<close>.\<close>

partial_function (option) pathLoop ::
  "grid \<Rightarrow> pos \<Rightarrow> bool \<Rightarrow> pos list \<Rightarrow> pos set \<Rightarrow> (pos \<rightharpoonup> pos)
     \<Rightarrow> (bool \<times> (pos \<rightharpoonup> pos)) option" where
  "pathLoop g endp allow queue visited cameFrom =
     (case queue of
        [] \<Rightarrow> Some (False, cameFrom)
      | current # rest \<Rightarrow>
          if fst current = fst endp \<and> snd current = snd endp then Some (True, cameFrom)
          else
            let r = pathNeighbors g endp allow current
                      (getNeighbors (fst current) (snd current) (gridWidth g) (gridHeight g))
                      rest visited cameFrom
            in if fst r then Some (True, snd (snd (snd r)))
               else pathLoop g endp allow (fst (snd r)) (fst (snd (snd r))) (snd (snd (snd r))))"

text \<open>
  The reconstruction loop. The outer \<open>option\<close> is termination; the inner one is the
  \<open>null\<close> returned when a key has no predecessor.
\<close>

partial_function (option) reconstructPath ::
  "(pos \<rightharpoonup> pos) \<Rightarrow> pos \<Rightarrow> pos \<Rightarrow> pos list \<Rightarrow> pos list option option" where
  "reconstructPath cameFrom start currentKey path =
     (if currentKey = start then Some (Some path)
      else
        case cameFrom currentKey of
          None \<Rightarrow> Some None
        | Some k \<Rightarrow> reconstructPath cameFrom start k (currentKey # path))"

text \<open>
  The positions passed in are pairs of integers, so the \<open>Number.isFinite\<close> guard never fires.
  The result is \<open>Some (Some path)\<close> for a path, \<open>Some None\<close> for \<open>null\<close>, and \<open>None\<close> if a loop
  does not return.
\<close>

definition findPathBFS :: "grid \<Rightarrow> pos \<Rightarrow> pos \<Rightarrow> bool \<Rightarrow> pos list option option" where
  "findPathBFS g start endp allowDestinationOccupied =
     (if fst start = fst endp \<and> snd start = snd endp then Some (Some [])
      else
        let destinationWalkable =
              (if allowDestinationOccupied
               then isWalkableIgnoreOccupant g (fst endp) (snd endp)
               else isWalkable g (fst endp) (snd endp))
        in if \<not> destinationWalkable then Some None
           else
             do {
               r \<leftarrow> pathLoop g endp allowDestinationOccupied [start] {start} Map.empty;
               if \<not> fst r then Some None
               else reconstructPath (snd r) start endp []
             })"

definition findPath :: "grid \<Rightarrow> pos \<Rightarrow> pos \<Rightarrow> pos list option option" where
  "findPath g start endp = findPathBFS g start endp False"

definition findPathAllowDestination :: "grid \<Rightarrow> pos \<Rightarrow> pos \<Rightarrow> pos list option option" where
  "findPathAllowDestination g start endp = findPathBFS g start endp True"

section \<open>Unit queries (UnitManager)\<close>

definition getAliveUnits :: "game \<Rightarrow> string \<Rightarrow> uref list" where
  "getAliveUnits g factionId =
     filter (\<lambda>u. faction (heap g u) = factionId \<and> alive (heap g u)) (units g)"


definition updUnit :: "game \<Rightarrow> uref \<Rightarrow> (unit \<Rightarrow> unit) \<Rightarrow> game" where
  "updUnit g u f = g\<lparr>heap := (heap g)(u := f (heap g u))\<rparr>"

text \<open>Returns the new session and \<open>killed\<close>.\<close>

definition applyDamage :: "game \<Rightarrow> uref \<Rightarrow> int \<Rightarrow> game \<times> bool" where
  "applyDamage g u dmg =
     (let g' = updUnit g u (\<lambda>x. x\<lparr>hp := max 0 (hp x - dmg)\<rparr>)
      in (g', hp (heap g' u) \<le> 0))"

definition setUnitDead :: "game \<Rightarrow> uref \<Rightarrow> game" where
  "setUnitDead g u =
     (let g1 = updUnit g u (\<lambda>x. x\<lparr>alive := False, status := Dead, hp := 0\<rparr>);
          t = tile (heap g1 u)
      in g1\<lparr>grid := clearOccupant (grid g1) (fst t) (snd t)\<rparr>)"

definition setUnitStatus :: "game \<Rightarrow> uref \<Rightarrow> status \<Rightarrow> game" where
  "setUnitStatus g u s = updUnit g u (\<lambda>x. x\<lparr>status := s\<rparr>)"

text \<open>
  \<open>faceTarget\<close> takes the direction from the position of the unit's model to the target tile;
  an attacker stands still, its model at the centre of its tile, so the signs of the world
  offsets are those of the tile offsets.
\<close>

definition faceTarget :: "game \<Rightarrow> uref \<Rightarrow> pos \<Rightarrow> game" where
  "faceTarget g u targetTile = updUnit g u (\<lambda>x. x\<lparr>facing := getTileDirection (tile x) targetTile\<rparr>)"

text \<open>The body of the loop of \<open>resetActivations\<close>, for one unit.\<close>

definition resetUnit :: "unit \<Rightarrow> unit" where
  "resetUnit x =
     (if \<not> alive x then x
      else
        let x1 = x\<lparr>activated := False, ap := maxAp x\<rparr>
        in if status x1 = Overwatch \<or> status x1 = Hunkered
           then x1\<lparr>status := Ready, overwatchCone := None\<rparr>
           else x1)"

definition resetActivations :: "game \<Rightarrow> game" where
  "resetActivations g = fold (\<lambda>u g'. updUnit g' u resetUnit) (units g) g"

definition markActivated :: "game \<Rightarrow> uref \<Rightarrow> game" where
  "markActivated g u =
     updUnit g u (\<lambda>x. let x1 = x\<lparr>activated := True\<rparr>
                       in if status x1 = Ready then x1\<lparr>status := Activated\<rparr> else x1)"

section \<open>Combat (CombatSystem)\<close>

record breakdown =
  base :: "rat option"
  bCoverPenalty :: "rat option"
  bCoverType :: "cover option"
  hunkeredPenalty :: "rat option"
  flankingBonus :: "rat option"
  rangePenalty :: "rat option"
  bDamage :: "int option"
  final :: "rat option"

definition emptyBreakdown :: breakdown where
  "emptyBreakdown = \<lparr>base = None, bCoverPenalty = None, bCoverType = None, hunkeredPenalty = None,
     flankingBonus = None, rangePenalty = None, bDamage = None, final = None\<rparr>"

text \<open>Returns \<open>(chance, breakdown)\<close>; \<open>None\<close> only if the line trace of \<open>checkLOS\<close> does not return.\<close>

definition calculateHitChance ::
  "grid \<Rightarrow> unit \<Rightarrow> unit \<Rightarrow> attackType \<Rightarrow> (rat \<times> breakdown) option" where
  "calculateHitChance gr attacker target attackType =
     (case attackType of
        Ranged \<Rightarrow>
          do {
            los \<leftarrow> checkLOS gr (fst (tile attacker)) (snd (tile attacker))
                     (fst (tile target)) (snd (tile target));
            let b0 = emptyBreakdown\<lparr>base := Some rangedAccuracy\<rparr>;
                c0 = rangedAccuracy;
                b1 = (if coverPenalty los \<noteq> 0
                      then b0\<lparr>bCoverPenalty := Some (coverPenalty los),
                              bCoverType := Some (losCoverType los)\<rparr>
                      else b0);
                c1 = (if coverPenalty los \<noteq> 0 then dadd c0 (coverPenalty los) else c0);
                hunkered = (status target = Hunkered \<and> coverPenalty los \<noteq> 0);
                b2 = (if hunkered then b1\<lparr>hunkeredPenalty := Some (coverPenalty los)\<rparr> else b1);
                c2 = (if hunkered then dadd c1 (coverPenalty los) else c1);
                flanked = checkFlanking (tile attacker) (tile target) (Some (facing target));
                b3 = (if flanked then b2\<lparr>flankingBonus := Some FLANKING_BONUS\<rparr> else b2);
                c3 = (if flanked then dadd c2 FLANKING_BONUS else c2);
                dist = tileDistance (tile attacker) (tile target);
                rangePen = roundDouble (- (5 / 100));
                b4 = (if dist \<ge> rangedRange - 1 then b3\<lparr>rangePenalty := Some rangePen\<rparr> else b3);
                c4 = (if dist \<ge> rangedRange - 1 then dadd c3 rangePen else c3);
                b5 = b4\<lparr>bDamage := Some rangedDamage\<rparr>;
                chance = clamp c4 MIN_HIT_CHANCE MAX_HIT_CHANCE
            in Some (chance, b5\<lparr>final := Some chance\<rparr>)
          }
      | Melee \<Rightarrow>
          (let b0 = emptyBreakdown\<lparr>base := Some meleeAccuracy\<rparr>;
               c0 = meleeAccuracy;
               flanked = checkFlanking (tile attacker) (tile target) (Some (facing target));
               b1 = (if flanked then b0\<lparr>flankingBonus := Some FLANKING_BONUS\<rparr> else b0);
               c1 = (if flanked then dadd c0 FLANKING_BONUS else c0);
               b2 = b1\<lparr>bDamage := Some meleeDamage\<rparr>;
               chance = clamp c1 MIN_HIT_CHANCE MAX_HIT_CHANCE
           in Some (chance, b2\<lparr>final := Some chance\<rparr>))
      | OtherAttack \<Rightarrow> Some (0, emptyBreakdown))"

record attackResult =
  hit :: bool
  damage :: int
  killed :: bool

text \<open>
  \<open>executeAttack\<close>, without camera, animation and notifications. \<open>roll\<close> is the value drawn
  by \<open>Math.random()\<close>.
\<close>

definition executeAttack ::
  "game \<Rightarrow> uref \<Rightarrow> uref \<Rightarrow> attackType \<Rightarrow> rat \<Rightarrow> (game \<times> attackResult) option" where
  "executeAttack g attacker target attackType roll =
     do {
       (chance, bd) \<leftarrow> calculateHitChance (grid g) (heap g attacker) (heap g target) attackType;
       let g1 = g\<lparr>phase := CombatAnimation\<rparr>;
           g2 = faceTarget g1 attacker (tile (heap g1 target));
           isHit = (roll \<le> chance)
       in if isHit then
            let dmg = (if attackType = Ranged then rangedDamage else meleeDamage);
                r = applyDamage g2 target dmg;
                g3 = (if snd r then setUnitDead (fst r) target else fst r);
                g4 = updUnit g3 attacker (\<lambda>x. x\<lparr>ap := max 0 (ap x - 1)\<rparr>)
            in Some (g4, \<lparr>hit = True, damage = dmg, killed = snd r\<rparr>)
          else
            let g4 = updUnit g2 attacker (\<lambda>x. x\<lparr>ap := max 0 (ap x - 1)\<rparr>)
            in Some (g4, \<lparr>hit = False, damage = 0, killed = False\<rparr>)
     }"

definition enemyFaction :: "game \<Rightarrow> unit \<Rightarrow> string" where
  "enemyFaction g x = (if faction x = playerFaction g then aiFaction g else playerFaction g)"

text \<open>
  The loop of \<open>checkOverwatch\<close> over the living enemies, \<open>triggers\<close> being the array pushed to.
  The parameter \<open>fromTile\<close> of \<open>checkOverwatch\<close> is not read by the code.
\<close>

fun overwatchLoop :: "game \<Rightarrow> pos \<Rightarrow> uref list \<Rightarrow> uref list \<Rightarrow> uref list option" where
  "overwatchLoop g toTile [] triggers = Some triggers"
| "overwatchLoop g toTile (e # enemies) triggers =
     (let enemy = heap g e in
      if status enemy \<noteq> Overwatch then overwatchLoop g toTile enemies triggers
      else if tileDistance (tile enemy) toTile > OVERWATCH_range
      then overwatchLoop g toTile enemies triggers
      else
        do {
          los \<leftarrow> checkLOS (grid g) (fst (tile enemy)) (snd (tile enemy)) (fst toTile) (snd toTile);
          if \<not> clear los then overwatchLoop g toTile enemies triggers
          else if (case overwatchCone enemy of
                     None \<Rightarrow> False
                   | Some cone \<Rightarrow>
                       (fst toTile - fst (tile enemy)) * fst cone
                         + (snd toTile - snd (tile enemy)) * snd cone < 0)
          then overwatchLoop g toTile enemies triggers
          else overwatchLoop g toTile enemies (triggers @ [e])
        })"

definition checkOverwatch :: "game \<Rightarrow> uref \<Rightarrow> pos \<Rightarrow> pos \<Rightarrow> uref list option" where
  "checkOverwatch g movingUnit fromTile toTile =
     overwatchLoop g toTile (getAliveUnits g (enemyFaction g (heap g movingUnit))) []"

definition executeOverwatchShot ::
  "game \<Rightarrow> uref \<Rightarrow> uref \<Rightarrow> rat \<Rightarrow> (game \<times> attackResult) option" where
  "executeOverwatchShot g overwatchUnit triggerUnit roll =
     do {
       (g1, result) \<leftarrow> executeAttack g overwatchUnit triggerUnit Ranged roll;
       Some (updUnit g1 overwatchUnit (\<lambda>x. x\<lparr>status := Activated, overwatchCone := None\<rparr>), result)
     }"

definition setOverwatch :: "game \<Rightarrow> uref \<Rightarrow> game" where
  "setOverwatch g u =
     (let g1 = updUnit g u (\<lambda>x. x\<lparr>status := Overwatch\<rparr>);
          g2 = updUnit g1 u (\<lambda>x. x\<lparr>overwatchCone := Some (facing x)\<rparr>);
          g3 = updUnit g2 u (\<lambda>x. x\<lparr>ap := max 0 (ap x - 1)\<rparr>)
      in setUnitStatus g3 u Overwatch)"

definition setHunker :: "game \<Rightarrow> uref \<Rightarrow> game" where
  "setHunker g u =
     (let g1 = updUnit g u (\<lambda>x. x\<lparr>status := Hunkered\<rparr>);
          g2 = updUnit g1 u (\<lambda>x. x\<lparr>ap := max 0 (ap x - 1)\<rparr>)
      in setUnitStatus g2 u Hunkered)"

section \<open>Player movement command (TurnManager)\<close>



section \<open>Activation queue (TurnManager)\<close>




section \<open>Notions of the specification, and loop invariants\<close>

text \<open>
  The movement rules in the words of the specification: a step goes to one of the eight
  neighbours, onto a walkable tile, and a diagonal step needs both orthogonal tiles next to
  the source in the direction of the step to be walkable ignoring occupants.
\<close>

definition legalStep :: "grid \<Rightarrow> pos \<Rightarrow> pos \<Rightarrow> bool" where
  "legalStep g a b \<longleftrightarrow>
     tileDistance a b = 1
     \<and> isWalkable g (fst b) (snd b)
     \<and> (fst a \<noteq> fst b \<and> snd a \<noteq> snd b \<longrightarrow>
          isWalkableIgnoreOccupant g (fst b) (snd a) \<and> isWalkableIgnoreOccupant g (fst a) (snd b))"

text \<open>\<open>validPath g a ps\<close>: the tiles \<open>ps\<close> are a path of legal steps that starts from \<open>a\<close>.\<close>

fun validPath :: "grid \<Rightarrow> pos \<Rightarrow> pos list \<Rightarrow> bool" where
  "validPath g a [] = True"
| "validPath g a (b # ps) = (legalStep g a b \<and> validPath g b ps)"

text \<open>\<open>reach g s n t\<close>: some path of \<open>n\<close> legal steps leads from \<open>s\<close> to \<open>t\<close>.\<close>

definition reach :: "grid \<Rightarrow> pos \<Rightarrow> nat \<Rightarrow> pos \<Rightarrow> bool" where
  "reach g s n t \<longleftrightarrow> (\<exists>ps. validPath g s ps \<and> last (s # ps) = t \<and> length ps = n)"

text \<open>
  The invariant of the loop of \<open>getMovementRange\<close>. \<open>dn\<close> lists the entries taken from the
  queue so far, in order.
\<close>

definition rangeInv ::
  "grid \<Rightarrow> pos \<Rightarrow> int \<Rightarrow> (pos \<times> int) list \<Rightarrow> (pos \<times> int) list \<Rightarrow> pos set \<Rightarrow> (pos \<times> int) list
     \<Rightarrow> bool" where
  "rangeInv g s M dn queue visited reachable \<longleftrightarrow>
     reachable = filter (\<lambda>e. 0 < snd e) dn
     \<and> visited = fst ` set (dn @ queue)
     \<and> distinct (map fst (dn @ queue))
     \<and> (s, 0) \<in> set (dn @ queue)
     \<and> (\<forall>e\<in>set (dn @ queue). reach g s (nat (snd e)) (fst e)
            \<and> (snd e = 0 \<or> (0 < snd e \<and> snd e \<le> M)))
     \<and> (\<forall>e\<in>set dn. \<forall>q\<in>set queue. snd e \<le> snd q)
     \<and> sorted (map snd queue)
     \<and> (\<forall>q\<in>set queue. \<forall>q'\<in>set queue. snd q \<le> snd q' + 1)
     \<and> (\<forall>e\<in>set dn. snd e < M \<longrightarrow>
            (\<forall>b. legalStep g (fst e) b \<longrightarrow> (\<exists>c'. (b, c') \<in> set (dn @ queue) \<and> c' \<le> snd e + 1)))"

text \<open>\<open>leads cameFrom start k\<close>: following \<open>cameFrom\<close> from \<open>k\<close> arrives at \<open>start\<close>.\<close>

inductive leads :: "(pos \<rightharpoonup> pos) \<Rightarrow> pos \<Rightarrow> pos \<Rightarrow> bool" for cameFrom start where
  leads_start: "leads cameFrom start start"
| leads_step: "k \<noteq> start \<Longrightarrow> cameFrom k = Some p \<Longrightarrow> leads cameFrom start p
               \<Longrightarrow> leads cameFrom start k"

text \<open>
  The ranged hit chance in the words of the specification: the cover term is the penalty of the
  target's cover from the attacker's direction (\<open>getCoverBetween\<close>), for every ranged attack.
  The modifiers that apply are added to the base with JavaScript additions, from left to right.
\<close>

definition specRangedHitChance :: "grid \<Rightarrow> unit \<Rightarrow> unit \<Rightarrow> rat" where
  "specRangedHitChance gr attacker target =
     (let cp = snd (getCoverBetween gr (tile attacker) (tile target));
          modifiers =
            (if cp \<noteq> 0 then [cp] else [])
            @ (if status target = Hunkered \<and> cp \<noteq> 0 then [cp] else [])
            @ (if checkFlanking (tile attacker) (tile target) (Some (facing target))
               then [FLANKING_BONUS] else [])
            @ (if tileDistance (tile attacker) (tile target) \<ge> rangedRange - 1
               then [roundDouble (- (5 / 100))] else [])
      in clamp (foldl dadd rangedAccuracy modifiers) MIN_HIT_CHANCE MAX_HIT_CHANCE)"

text \<open>
  The cone test in the words of the specification: the movement direction
  (\<open>toTile - fromTile\<close>, normalised componentwise) against the cone.
\<close>

definition movementInCone :: "pos \<Rightarrow> pos \<Rightarrow> pos \<Rightarrow> bool" where
  "movementInCone fromTile toTile cone =
     (let d = getTileDirection fromTile toTile
      in fst d * fst cone + snd d * snd cone \<ge> 0)"

text \<open>The condition under which the loop of \<open>checkOverwatch\<close> pushes the enemy \<open>e\<close>.\<close>

definition fires :: "game \<Rightarrow> pos \<Rightarrow> uref \<Rightarrow> bool" where
  "fires g toTile e =
     (status (heap g e) = Overwatch
      \<and> tileDistance (tile (heap g e)) toTile \<le> OVERWATCH_range
      \<and> (case checkLOS (grid g) (fst (tile (heap g e))) (snd (tile (heap g e)))
                 (fst toTile) (snd toTile) of
            None \<Rightarrow> False | Some l \<Rightarrow> clear l)
      \<and> (case overwatchCone (heap g e) of
            None \<Rightarrow> True
          | Some cone \<Rightarrow>
              0 \<le> (fst toTile - fst (tile (heap g e))) * fst cone
                    + (snd toTile - snd (tile (heap g e))) * snd cone))"


section \<open>Concrete sessions used to instantiate the theorems\<close>

text \<open>A session with five living, not yet activated units on each side, created in squad order.\<close>

definition demoUnit :: "string \<Rightarrow> pos \<Rightarrow> unit" where
  "demoUnit f t = \<lparr>faction = f, tile = t, hp = 10, maxHp = 10, ap = 2, maxAp = 2,
     activated = False, alive = True, status = Ready,
     facing = (if f = ''orderOfTheAbyss'' then (1, 0) else (-1, 0)), overwatchCone = None\<rparr>"

definition openTile :: tile where
  "openTile = \<lparr>walkable = True, coverType = CoverNone, objectType = None, occupant = None,
     spawnZone = None\<rparr>"


definition wallGrid :: grid where
  "wallGrid = \<lparr>gridWidth = 6, gridHeight = 3,
     tiles = (\<lambda>c r. if c = 2 \<and> r = 1
                     then openTile\<lparr>walkable := False, coverType := CoverFull, objectType := Some ''column''\<rparr>
                     else if c = 4 \<and> r = 1
                     then openTile\<lparr>walkable := False, coverType := CoverHalf, objectType := Some ''boulder''\<rparr>
                     else openTile)\<rparr>"


text \<open>
  A duel on the walled grid: unit 0 (player) on (3, 1), unit 1 (opponent) on (5, 1) behind the
  boulder on (4, 1) and facing the attacker, unit 2 (player) on (0, 1) behind the column.
\<close>

definition duelGame :: game where
  "duelGame = \<lparr>heap = (\<lambda>u. if u = 0 then demoUnit ''orderOfTheAbyss'' (3, 1)
                          else if u = 1 then demoUnit ''germani'' (5, 1)
                          else demoUnit ''orderOfTheAbyss'' (0, 1)),
     units = [0, 1, 2],
     grid = setOccupant (setOccupant (setOccupant wallGrid 3 1 0) 5 1 1) 0 1 2,
     playerFaction = ''orderOfTheAbyss'', aiFaction = ''germani'', phase = PlayerAction,
     activeUnit = Some 0, selectedMoveTiles = []\<rparr>"

text \<open>The duel after unit 0 has gone on overwatch, facing (1, 0).\<close>

definition watchGame :: game where
  "watchGame = setOverwatch duelGame 0"

text \<open>The same, unit 0 being down to 4 hit points.\<close>

definition woundedWatchGame :: game where
  "woundedWatchGame = updUnit watchGame 0 (\<lambda>x. x\<lparr>hp := 4\<rparr>)"



section \<open>Line tracing and line of sight\<close>

lemma bresenhamLoop_inv:
  fixes rx ry dx dy sx sy x0 y0 x1 y1 err :: int
  assumes "0 \<le> rx" "rx \<le> dx" "0 \<le> ry" "ry \<le> dy"
    and "sx = 1 \<or> sx = - 1" "sy = 1 \<or> sy = - 1"
    and "x0 = x1 - sx * rx" "y0 = y1 - sy * ry"
    and "err = dx - dy + rx * dy - ry * dx"
  shows "\<exists>ts. bresenhamLoop x1 y1 dx dy sx sy x0 y0 err acc = Some (acc @ ts)
           \<and> (\<forall>t\<in>set ts. \<exists>rx' ry'. 0 \<le> rx' \<and> rx' \<le> rx \<and> 0 \<le> ry' \<and> ry' \<le> ry
                  \<and> rx' + ry' < rx + ry \<and> t = (x1 - sx * rx', y1 - sy * ry'))
           \<and> (rx + ry > 0 \<longrightarrow> ts \<noteq> [] \<and> last ts = (x1, y1))"
  using assms
proof (induction "nat (rx + ry)" arbitrary: rx ry x0 y0 err acc rule: less_induct)
  case less
  note sx = \<open>sx = 1 \<or> sx = - 1\<close> and sy = \<open>sy = 1 \<or> sy = - 1\<close>
  show ?case
  proof (cases "rx = 0 \<and> ry = 0")
    case True
    with less.prems have "x0 = x1 \<and> y0 = y1" by simp
    then have "bresenhamLoop x1 y1 dx dy sx sy x0 y0 err acc = Some (acc @ [])"
      by (subst bresenhamLoop.simps) simp
    with True show ?thesis by auto
  next
    case False
    have dx0: "0 \<le> dx" and dy0: "0 \<le> dy" using less.prems by auto
    have ne: "\<not> (x0 = x1 \<and> y0 = y1)"
      using False less.prems sx sy by auto
    define stepx where "stepx \<longleftrightarrow> 2 * err > - dy"
    define stepy where "stepy \<longleftrightarrow> 2 * err < dx"
    have errx: "2 * err \<le> - dy" if "rx = 0"
    proof -
      from that False less.prems have "1 \<le> ry" by auto
      then have "1 * dx \<le> ry * dx" using dx0 by (rule mult_right_mono)
      with that less.prems dy0 show ?thesis by simp
    qed
    have erry: "dx \<le> 2 * err" if "ry = 0"
    proof -
      from that False less.prems have "1 \<le> rx" by auto
      then have "1 * dy \<le> rx * dy" using dy0 by (rule mult_right_mono)
      with that less.prems dx0 show ?thesis by simp
    qed
    have rx1: "1 \<le> rx" if stepx
    proof (rule ccontr)
      assume "\<not> 1 \<le> rx"
      with \<open>0 \<le> rx\<close> have "rx = 0" by simp
      from errx [OF this] that show False unfolding stepx_def by simp
    qed
    have ry1: "1 \<le> ry" if stepy
    proof (rule ccontr)
      assume "\<not> 1 \<le> ry"
      with \<open>0 \<le> ry\<close> have "ry = 0" by simp
      from erry [OF this] that show False unfolding stepy_def by simp
    qed
    have some: "stepx \<or> stepy"
    proof (rule ccontr)
      assume "\<not> (stepx \<or> stepy)"
      then have "dx \<le> - dy" unfolding stepx_def stepy_def by linarith
      with dx0 dy0 less.prems False show False by auto
    qed
    define rx' where "rx' = (if stepx then rx - 1 else rx)"
    define ry' where "ry' = (if stepy then ry - 1 else ry)"
    define xA where "xA = (if stepx then x0 + sx else x0)"
    define yB where "yB = (if stepy then y0 + sy else y0)"
    define errB where "errB = (if stepy then (if stepx then err - dy else err) + dx
                               else (if stepx then err - dy else err))"
    have unfold: "bresenhamLoop x1 y1 dx dy sx sy x0 y0 err acc =
                  bresenhamLoop x1 y1 dx dy sx sy xA yB errB (acc @ [(xA, yB)])"
      by (subst bresenhamLoop.simps, subst if_not_P [OF ne])
        (simp add: Let_def xA_def yB_def errB_def stepx_def stepy_def)
    have b: "0 \<le> rx'" "rx' \<le> rx" "0 \<le> ry'" "ry' \<le> ry" "rx' + ry' < rx + ry"
      using rx1 ry1 some less.prems by (auto simp: rx'_def ry'_def)
    have xA: "xA = x1 - sx * rx'"
      using less.prems by (simp add: xA_def rx'_def algebra_simps)
    have yB: "yB = y1 - sy * ry'"
      using less.prems by (simp add: yB_def ry'_def algebra_simps)
    have eB: "errB = dx - dy + rx' * dy - ry' * dx"
      using less.prems by (simp add: errB_def rx'_def ry'_def algebra_simps)
    have m: "nat (rx' + ry') < nat (rx + ry)" using b by simp
    from less.hyps [OF m b(1) _ b(3) _ sx sy xA yB eB, of "acc @ [(xA, yB)]"] b less.prems
    obtain ts where ts: "bresenhamLoop x1 y1 dx dy sx sy xA yB errB (acc @ [(xA, yB)])
                          = Some ((acc @ [(xA, yB)]) @ ts)"
      and tsP: "\<forall>t\<in>set ts. \<exists>rx'' ry''. 0 \<le> rx'' \<and> rx'' \<le> rx' \<and> 0 \<le> ry'' \<and> ry'' \<le> ry'
                  \<and> rx'' + ry'' < rx' + ry' \<and> t = (x1 - sx * rx'', y1 - sy * ry'')"
      and tsL: "rx' + ry' > 0 \<longrightarrow> ts \<noteq> [] \<and> last ts = (x1, y1)"
      by force
    have "bresenhamLoop x1 y1 dx dy sx sy x0 y0 err acc = Some (acc @ ((xA, yB) # ts))"
      using unfold ts by simp
    moreover have "\<forall>t\<in>set ((xA, yB) # ts). \<exists>rx'' ry''. 0 \<le> rx'' \<and> rx'' \<le> rx \<and> 0 \<le> ry''
          \<and> ry'' \<le> ry \<and> rx'' + ry'' < rx + ry \<and> t = (x1 - sx * rx'', y1 - sy * ry'')"
    proof
      fix t assume "t \<in> set ((xA, yB) # ts)"
      then consider "t = (xA, yB)" | "t \<in> set ts" by auto
      then show "\<exists>rx'' ry''. 0 \<le> rx'' \<and> rx'' \<le> rx \<and> 0 \<le> ry''
          \<and> ry'' \<le> ry \<and> rx'' + ry'' < rx + ry \<and> t = (x1 - sx * rx'', y1 - sy * ry'')"
      proof cases
        case 1
        then show ?thesis using b xA yB by blast
      next
        case 2
        with tsP obtain a c where "0 \<le> a" "a \<le> rx'" "0 \<le> c" "c \<le> ry'" "a + c < rx' + ry'"
          "t = (x1 - sx * a, y1 - sy * c)" by blast
        with b show ?thesis by (intro exI [of _ a] exI [of _ c]) auto
      qed
    qed
    moreover have "last ((xA, yB) # ts) = (x1, y1)"
    proof (cases "rx' + ry' > 0")
      case True
      with tsL show ?thesis by simp
    next
      case False
      with b have "rx' = 0" "ry' = 0" by auto
      with xA yB have "(xA, yB) = (x1, y1)" by simp
      moreover from \<open>rx' = 0\<close> \<open>ry' = 0\<close> tsP have "ts = []" by (cases ts) auto
      ultimately show ?thesis by simp
    qed
    ultimately show ?thesis by blast
  qed
qed

lemma bresenhamLine_total:
  "\<exists>ts. bresenhamLine (x0, y0) (x1, y1) = Some ts
     \<and> (\<forall>t\<in>set ts. t \<noteq> (x0, y0)
            \<and> min x0 x1 \<le> fst t \<and> fst t \<le> max x0 x1
            \<and> min y0 y1 \<le> snd t \<and> snd t \<le> max y0 y1)
     \<and> ((x0, y0) \<noteq> (x1, y1) \<longrightarrow> ts \<noteq> [] \<and> last ts = (x1, y1))"
proof -
  define dx where "dx = \<bar>x1 - x0\<bar>"
  define dy where "dy = \<bar>y1 - y0\<bar>"
  define sx :: int where "sx = (if x0 < x1 then 1 else - 1)"
  define sy :: int where "sy = (if y0 < y1 then 1 else - 1)"
  have line: "bresenhamLine (x0, y0) (x1, y1) = bresenhamLoop x1 y1 dx dy sx sy x0 y0 (dx - dy) []"
    by (simp add: bresenhamLine_def Let_def dx_def dy_def sx_def sy_def)
  have x0: "x0 = x1 - sx * dx" and y0: "y0 = y1 - sy * dy"
    by (auto simp: dx_def dy_def sx_def sy_def)
  have "0 \<le> dx" "dx \<le> dx" "0 \<le> dy" "dy \<le> dy" "sx = 1 \<or> sx = - 1" "sy = 1 \<or> sy = - 1"
    "dx - dy = dx - dy + dx * dy - dy * dx"
    by (auto simp: dx_def dy_def sx_def sy_def)
  from bresenhamLoop_inv [OF this(1-6) x0 y0 this(7), of "[]"]
  obtain ts where ts: "bresenhamLoop x1 y1 dx dy sx sy x0 y0 (dx - dy) [] = Some ts"
    and P: "\<And>t. t \<in> set ts \<Longrightarrow> \<exists>rx' ry'. 0 \<le> rx' \<and> rx' \<le> dx \<and> 0 \<le> ry' \<and> ry' \<le> dy
                  \<and> rx' + ry' < dx + dy \<and> t = (x1 - sx * rx', y1 - sy * ry')"
    and L: "dx + dy > 0 \<longrightarrow> ts \<noteq> [] \<and> last ts = (x1, y1)"
    by auto
  have "t \<noteq> (x0, y0) \<and> min x0 x1 \<le> fst t \<and> fst t \<le> max x0 x1
            \<and> min y0 y1 \<le> snd t \<and> snd t \<le> max y0 y1" if "t \<in> set ts" for t
  proof -
    from P [OF that] obtain a c where a: "0 \<le> a" "a \<le> dx" "0 \<le> c" "c \<le> dy" "a + c < dx + dy"
      and t: "t = (x1 - sx * a, y1 - sy * c)" by blast
    have "fst t \<noteq> x0 \<or> snd t \<noteq> y0"
      using a unfolding t dx_def dy_def sx_def sy_def by (auto split: if_splits)
    moreover have "min x0 x1 \<le> fst t \<and> fst t \<le> max x0 x1"
      using a unfolding t dx_def sx_def by (auto split: if_splits)
    moreover have "min y0 y1 \<le> snd t \<and> snd t \<le> max y0 y1"
      using a unfolding t dy_def sy_def by (auto split: if_splits)
    ultimately show ?thesis by auto
  qed
  moreover have "(x0, y0) \<noteq> (x1, y1) \<longrightarrow> dx + dy > 0"
    by (auto simp: dx_def dy_def)
  ultimately show ?thesis using line ts L by auto
qed

lemma losBlocked_iff:
  "losBlocked g toCol toRow line \<longleftrightarrow>
     (\<exists>lt\<in>set line. lt \<noteq> (toCol, toRow)
        \<and> (\<exists>t. getTile g (fst lt) (snd lt) = Some t \<and> coverType t = CoverFull \<and> hasObject t))"
  by (induction line) (auto split: option.splits)

lemma getTile_Some_iff:
  "getTile g c r = Some t \<longleftrightarrow>
     0 \<le> c \<and> c < gridWidth g \<and> 0 \<le> r \<and> r < gridHeight g \<and> t = tiles g c r"
  by (auto simp: getTile_def)

lemma getTile_None_iff:
  "getTile g c r = None \<longleftrightarrow> \<not> (0 \<le> c \<and> c < gridWidth g \<and> 0 \<le> r \<and> r < gridHeight g)"
  by (auto simp: getTile_def)

text \<open>
  C6. For attacker and target tiles inside the grid, the line trace returns a list of tiles, none
  of them the attacker's tile and all of them inside the grid. \<open>checkLOS\<close> returns
  \<open>clear = false\<close> with the cover marker \<open>blocked\<close> and penalty 0 whenever some traced tile
  other than the target tile has cover type full and a placed object; otherwise it returns
  \<open>clear = true\<close> with the cover type and penalty of \<open>getCoverBetween\<close> at the target.
\<close>

theorem checkLOS_blocking:
  assumes "getTile g fromCol fromRow \<noteq> None" and "getTile g toCol toRow \<noteq> None"
  shows "\<exists>line. bresenhamLine (fromCol, fromRow) (toCol, toRow) = Some line
     \<and> (\<forall>lt\<in>set line. lt \<noteq> (fromCol, fromRow)
            \<and> getTile g (fst lt) (snd lt) = Some (tiles g (fst lt) (snd lt)))
     \<and> checkLOS g fromCol fromRow toCol toRow = Some
          (if \<exists>lt\<in>set line. lt \<noteq> (toCol, toRow)
                \<and> coverType (tiles g (fst lt) (snd lt)) = CoverFull
                \<and> hasObject (tiles g (fst lt) (snd lt))
           then \<lparr>clear = False, coverPenalty = 0, losCoverType = CoverBlocked\<rparr>
           else \<lparr>clear = True,
                 coverPenalty = snd (getCoverBetween g (fromCol, fromRow) (toCol, toRow)),
                 losCoverType = fst (getCoverBetween g (fromCol, fromRow) (toCol, toRow))\<rparr>)"
proof -
  from bresenhamLine_total [of fromCol fromRow toCol toRow]
  obtain line where line: "bresenhamLine (fromCol, fromRow) (toCol, toRow) = Some line"
    and box: "\<And>t. t \<in> set line \<Longrightarrow> t \<noteq> (fromCol, fromRow)
            \<and> min fromCol toCol \<le> fst t \<and> fst t \<le> max fromCol toCol
            \<and> min fromRow toRow \<le> snd t \<and> snd t \<le> max fromRow toRow"
    by blast
  have inb: "getTile g (fst lt) (snd lt) = Some (tiles g (fst lt) (snd lt))" if "lt \<in> set line" for lt
    using box [OF that] assms unfolding getTile_Some_iff getTile_None_iff by auto
  have blocked: "losBlocked g toCol toRow line \<longleftrightarrow>
      (\<exists>lt\<in>set line. lt \<noteq> (toCol, toRow)
                \<and> coverType (tiles g (fst lt) (snd lt)) = CoverFull
                \<and> hasObject (tiles g (fst lt) (snd lt)))"
    unfolding losBlocked_iff using inb by auto
  have "checkLOS g fromCol fromRow toCol toRow = Some
          (if losBlocked g toCol toRow line
           then \<lparr>clear = False, coverPenalty = 0, losCoverType = CoverBlocked\<rparr>
           else \<lparr>clear = True,
                 coverPenalty = snd (getCoverBetween g (fromCol, fromRow) (toCol, toRow)),
                 losCoverType = fst (getCoverBetween g (fromCol, fromRow) (toCol, toRow))\<rparr>)"
    by (simp add: checkLOS_def line Let_def)
  then show ?thesis using line box inb unfolding blocked by blast
qed

lemmas eval_grid = getTile_def getCoverBetween_def checkPositions_def getTileDirection_def
  coverStep_def hasObject_def openTile_def COVER_BONUS_half_def COVER_BONUS_full_def

theorem checkLOS_blocking_witness:
  "getTile wallGrid 0 1 \<noteq> None \<and> getTile wallGrid 3 1 \<noteq> None \<and> getTile wallGrid 5 1 \<noteq> None
   \<and> bresenhamLine (0, 1) (3, 1) = Some [(1, 1), (2, 1), (3, 1)]
   \<and> checkLOS wallGrid 0 1 3 1 = Some \<lparr>clear = False, coverPenalty = 0, losCoverType = CoverBlocked\<rparr>
   \<and> bresenhamLine (3, 1) (5, 1) = Some [(4, 1), (5, 1)]
   \<and> checkLOS wallGrid 3 1 5 1
       = Some \<lparr>clear = True, coverPenalty = - (1 / 4), losCoverType = CoverHalf\<rparr>"
proof -
  have a: "getTile wallGrid 0 1 \<noteq> None" and b: "getTile wallGrid 3 1 \<noteq> None"
    and c: "getTile wallGrid 5 1 \<noteq> None"
    by (simp_all add: getTile_def wallGrid_def)
  have l1: "bresenhamLine (0, 1) (3, 1) = Some [(1, 1), (2, 1), (3, 1)]"
    by (simp add: bresenhamLine_def bresenhamLoop.simps)
  have l2: "bresenhamLine (3, 1) (5, 1) = Some [(4, 1), (5, 1)]"
    by (simp add: bresenhamLine_def bresenhamLoop.simps)
  from checkLOS_blocking [OF a b]
  have "checkLOS wallGrid 0 1 3 1 = Some \<lparr>clear = False, coverPenalty = 0, losCoverType = CoverBlocked\<rparr>"
    unfolding l1 by (simp add: wallGrid_def eval_grid)
  moreover from checkLOS_blocking [OF b c]
  have "checkLOS wallGrid 3 1 5 1
       = Some \<lparr>clear = True, coverPenalty = - (1 / 4), losCoverType = CoverHalf\<rparr>"
    unfolding l2 by (simp add: wallGrid_def eval_grid)
  ultimately show ?thesis using a b c l1 l2 by blast
qed

section \<open>Hit chance\<close>

lemma getCoverBetween_cases:
  "getCoverBetween g a t \<in> {(CoverNone, 0), (CoverHalf, COVER_BONUS_half), (CoverFull, COVER_BONUS_full)}"
proof -
  have step: "coverStep g p b \<in> {(CoverNone, 0), (CoverHalf, COVER_BONUS_half), (CoverFull, COVER_BONUS_full)}"
    if "b \<in> {(CoverNone, 0), (CoverHalf, COVER_BONUS_half), (CoverFull, COVER_BONUS_full)}" for p b
    using that by (auto simp: coverStep_def split: option.splits)
  have "fold (coverStep g) ps b \<in> {(CoverNone, 0), (CoverHalf, COVER_BONUS_half), (CoverFull, COVER_BONUS_full)}"
    if "b \<in> {(CoverNone, 0), (CoverHalf, COVER_BONUS_half), (CoverFull, COVER_BONUS_full)}" for ps b
    using that
  proof (induction ps arbitrary: b)
    case Nil
    then show ?case by simp
  next
    case (Cons p ps)
    from Cons.IH [OF step [OF Cons.prems]] show ?case by simp
  qed
  then show ?thesis unfolding getCoverBetween_def by simp
qed

lemma getCoverBetween_nonpos: "snd (getCoverBetween g a t) \<le> 0"
  using getCoverBetween_cases [of g a t]
  by (auto simp: COVER_BONUS_half_def COVER_BONUS_full_def)

lemma checkLOS_total:
  "\<exists>l. checkLOS g fc fr tc tr = Some l
      \<and> (clear l \<longrightarrow> coverPenalty l = snd (getCoverBetween g (fc, fr) (tc, tr))
                    \<and> losCoverType l = fst (getCoverBetween g (fc, fr) (tc, tr)))
      \<and> (\<not> clear l \<longrightarrow> coverPenalty l = 0 \<and> losCoverType l = CoverBlocked)"
proof -
  from bresenhamLine_total [of fc fr tc tr]
  obtain line where "bresenhamLine (fc, fr) (tc, tr) = Some line" by blast
  then show ?thesis by (simp add: checkLOS_def Let_def)
qed

subsection \<open>Rounding of JavaScript numbers\<close>

text \<open>
  \<open>binExponent\<close> is the binary exponent, and \<open>roundDouble q\<close> is an integer multiple of the
  spacing at \<open>q\<close> that lies within half that spacing of \<open>q\<close>.
\<close>

lemma binExponent_bounds:
  assumes "q \<noteq> 0"
  shows "pow2 (binExponent q) \<le> \<bar>q\<bar> \<and> \<bar>q\<bar> < pow2 (binExponent q + 1)"
proof (cases "1 \<le> \<bar>q\<bar>")
  case True
  let ?n = "\<lfloor>\<bar>q\<bar>\<rfloor>"
  have n: "0 < ?n" using True by simp
  from bitlen_bounds [OF n]
  have lo: "2 ^ nat (bitlen ?n - 1) \<le> ?n" and hi: "?n < 2 ^ nat (bitlen ?n)" by simp_all
  have b1: "1 \<le> bitlen ?n" using n bitlen_eq_zero_iff [of ?n] bitlen_nonneg [of ?n] by linarith
  have "(of_int (2 ^ nat (bitlen ?n - 1)) :: rat) \<le> of_int ?n"
    using lo by (simp only: of_int_le_iff)
  also have "\<dots> \<le> \<bar>q\<bar>" by simp
  finally have A: "(2 :: rat) ^ nat (bitlen ?n - 1) \<le> \<bar>q\<bar>" by simp
  from hi have "?n + 1 \<le> 2 ^ nat (bitlen ?n)" by simp
  then have "(of_int (?n + 1) :: rat) \<le> of_int (2 ^ nat (bitlen ?n))"
    by (simp only: of_int_le_iff)
  moreover have "\<bar>q\<bar> < of_int (?n + 1)" by linarith
  ultimately have B: "\<bar>q\<bar> < (2 :: rat) ^ nat (bitlen ?n)" by simp
  show ?thesis using True A B b1 by (simp add: binExponent_def pow2_def)
next
  case False
  let ?x = "1 / \<bar>q\<bar>"
  let ?y = "\<lceil>?x\<rceil>"
  let ?k = "bitlen (?y - 1)"
  have q0: "0 < \<bar>q\<bar>" using assms by simp
  have x1: "1 < ?x" using False q0 by (simp add: field_simps)
  then have y2: "2 \<le> ?y" by linarith
  then have p: "0 < ?y - 1" by simp
  from bitlen_bounds [OF p]
  have lo: "2 ^ nat (?k - 1) \<le> ?y - 1" and hi: "?y - 1 < 2 ^ nat ?k" by simp_all
  have k1: "1 \<le> ?k" using p bitlen_eq_zero_iff [of "?y - 1"] bitlen_nonneg [of "?y - 1"] by linarith
  from hi have "?y \<le> 2 ^ nat ?k" by simp
  then have yk: "(of_int ?y :: rat) \<le> of_int (2 ^ nat ?k)" by (simp only: of_int_le_iff)
  have "?x \<le> of_int ?y" by linarith
  also note yk
  finally have xk: "?x \<le> (2 :: rat) ^ nat ?k" by simp
  have "(of_int (2 ^ nat (?k - 1)) :: rat) \<le> of_int (?y - 1)"
    using lo by (simp only: of_int_le_iff)
  moreover have "(of_int (?y - 1) :: rat) < ?x" by linarith
  ultimately have kx: "(2 :: rat) ^ nat (?k - 1) < ?x" by simp
  have A: "1 / (2 :: rat) ^ nat ?k \<le> \<bar>q\<bar>"
    using xk q0 by (simp add: field_simps)
  have B: "\<bar>q\<bar> < 1 / (2 :: rat) ^ nat (?k - 1)"
    using kx q0 by (simp add: field_simps)
  have e: "binExponent q = - ?k" using False by (simp add: binExponent_def)
  show ?thesis
  proof (cases "?k = 1")
    case True
    then show ?thesis using A B unfolding e by (simp add: pow2_def)
  next
    case ne: False
    with k1 have "\<not> 0 \<le> - ?k + 1" "\<not> 0 \<le> - ?k" by linarith+
    moreover have "nat (- (- ?k + 1)) = nat (?k - 1)" by simp
    ultimately show ?thesis using A B k1 unfolding e pow2_def by (simp del: of_int_diff)
  qed
qed

lemma pow2_pos: "0 < pow2 e"
  by (simp add: pow2_def)

lemma roundTiesEven_nearest: "\<bar>of_int (roundTiesEven q) - q\<bar> \<le> 1 / 2"
proof -
  have "of_int \<lfloor>q\<rfloor> \<le> q" "q < of_int \<lfloor>q\<rfloor> + 1" by linarith+
  then show ?thesis by (auto simp: roundTiesEven_def Let_def)
qed

lemma roundTiesEven_int: "roundTiesEven (of_int m) = m"
  by (simp add: roundTiesEven_def)

lemma roundDouble_nearest:
  "\<bar>roundDouble q - q\<bar> \<le> pow2 (max (binExponent q) (- 1022) - 52) / 2"
proof (cases "q = 0")
  case True
  then show ?thesis using pow2_pos [of "max (binExponent q) (- 1022) - 52"]
    by (simp add: roundDouble_def)
next
  case False
  let ?u = "pow2 (max (binExponent q) (- 1022) - 52)"
  have u: "0 < ?u" by (rule pow2_pos)
  have "roundDouble q - q = (of_int (roundTiesEven (q / ?u)) - q / ?u) * ?u"
    using False u by (simp add: roundDouble_def Let_def field_simps)
  then have "\<bar>roundDouble q - q\<bar> = \<bar>of_int (roundTiesEven (q / ?u)) - q / ?u\<bar> * ?u"
    using u by (simp add: abs_mult)
  also have "\<dots> \<le> (1 / 2) * ?u"
    using roundTiesEven_nearest [of "q / ?u"] u by (intro mult_right_mono) simp_all
  finally show ?thesis by simp
qed

text \<open>The well-known \<open>0.1 + 0.2 = 0.30000000000000004\<close>, which is not the literal \<open>0.3\<close>.\<close>

lemma double_rounding_examples:
  "dadd (roundDouble (1 / 10)) (roundDouble (2 / 10)) = 1351079888211149 / 4503599627370496"
  "roundDouble (3 / 10) = 5404319552844595 / 18014398509481984"
  by code_simp+

subsection \<open>The hit chance of a ranged attack\<close>

text \<open>The binary64 values of the constants; the two cover penalties are binary fractions.\<close>

lemma double_constants:
  "rangedAccuracy = 3152519739159347 / 4503599627370496"
  "meleeAccuracy = 7656119366529843 / 9007199254740992"
  "FLANKING_BONUS = 5404319552844595 / 36028797018963968"
  "MIN_HIT_CHANCE = 3602879701896397 / 72057594037927936"
  "MAX_HIT_CHANCE = 4278419646001971 / 4503599627370496"
  "roundDouble (- (5 / 100)) = - (3602879701896397 / 72057594037927936)"
  by code_simp+

lemma cover_bonus_exact:
  "roundDouble COVER_BONUS_half = COVER_BONUS_half"
  "roundDouble COVER_BONUS_full = COVER_BONUS_full"
  by code_simp+

text \<open>
  \<open>0.7 + -0.25\<close> on JavaScript numbers, as used in the concrete sessions: the sum is
  \<open>2026619832316723 / 2 ^ 52\<close>, which JavaScript prints as \<open>0.44999999999999996\<close>.
\<close>

lemma double_sums:
  "dadd (3152519739159347 / 4503599627370496) (- (1 / 4)) = 2026619832316723 / 4503599627370496"
  by code_simp

lemma duel_chance:
  "clamp (dadd (3152519739159347 / 4503599627370496) (- (1 / 4)))
     (3602879701896397 / 72057594037927936) (4278419646001971 / 4503599627370496)
   = 2026619832316723 / 4503599627370496"
  by (simp add: clamp_def double_sums)

lemma clamp_hit_chance:
  "MIN_HIT_CHANCE \<le> clamp v MIN_HIT_CHANCE MAX_HIT_CHANCE"
  "clamp v MIN_HIT_CHANCE MAX_HIT_CHANCE \<le> MAX_HIT_CHANCE"
  by (simp_all add: clamp_def double_constants)

lemmas eval_units = duelGame_def demoUnit_def wallGrid_def setOccupant_def

lemmas eval_combat = checkFlanking_def tileDistance_def rangedRange_def rangedDamage_def
  clamp_def double_constants double_sums

text \<open>
  C1 as stated fails when the line of sight is blocked. In the duel, unit 2 on (0, 1) aims at
  the living enemy unit 1 on (5, 1), which stands behind the boulder on (4, 1): half cover from
  the attacker's direction, penalty \<open>-0.25\<close>. The column on (2, 1) blocks the line of sight, so \<open>checkLOS\<close> reports the
  penalty 0 and \<open>calculateHitChance\<close> returns the base accuracy \<open>0.7\<close> with no cover entry in
  the breakdown, where the formula of the specification gives \<open>0.7 + -0.25\<close>. An attack of
  roll \<open>0.5\<close> hits. The game attacks across a blocked line when an overwatch shot, triggered
  at a step of a path, is fired at the mover standing on the last tile of the path.
\<close>

theorem calculateHitChance_blocked_los_counterexample:
  "alive (heap duelGame 1) \<and> faction (heap duelGame 1) \<noteq> faction (heap duelGame 2)
   \<and> checkLOS (grid duelGame) 0 1 5 1
       = Some \<lparr>clear = False, coverPenalty = 0, losCoverType = CoverBlocked\<rparr>
   \<and> getCoverBetween (grid duelGame) (0, 1) (5, 1) = (CoverHalf, - (1 / 4))
   \<and> calculateHitChance (grid duelGame) (heap duelGame 2) (heap duelGame 1) Ranged =
       Some (3152519739159347 / 4503599627370496,
         \<lparr>base = Some (3152519739159347 / 4503599627370496), bCoverPenalty = None,
          bCoverType = None, hunkeredPenalty = None, flankingBonus = None, rangePenalty = None,
          bDamage = Some 4, final = Some (3152519739159347 / 4503599627370496)\<rparr>)
   \<and> specRangedHitChance (grid duelGame) (heap duelGame 2) (heap duelGame 1)
       = 2026619832316723 / 4503599627370496
   \<and> map_option fst (calculateHitChance (grid duelGame) (heap duelGame 2) (heap duelGame 1) Ranged)
       \<noteq> Some (specRangedHitChance (grid duelGame) (heap duelGame 2) (heap duelGame 1))
   \<and> map_option (hit \<circ> snd) (executeAttack duelGame 2 1 Ranged (1 / 2)) = Some True"
proof -
  have t: "tile (heap duelGame 2) = (0, 1)" "tile (heap duelGame 1) = (5, 1)"
    "status (heap duelGame 1) = Ready" "facing (heap duelGame 1) = (- 1, 0)"
    "alive (heap duelGame 1)" "faction (heap duelGame 1) \<noteq> faction (heap duelGame 2)"
    by (simp_all add: eval_units)
  have l: "checkLOS (grid duelGame) 0 1 5 1
       = Some \<lparr>clear = False, coverPenalty = 0, losCoverType = CoverBlocked\<rparr>"
    by (simp add: checkLOS_def bresenhamLine_def bresenhamLoop.simps eval_units eval_grid)
  have c: "getCoverBetween (grid duelGame) (0, 1) (5, 1) = (CoverHalf, - (1 / 4))"
    by (simp add: eval_units eval_grid)
  have h: "calculateHitChance (grid duelGame) (heap duelGame 2) (heap duelGame 1) Ranged =
       Some (3152519739159347 / 4503599627370496,
         \<lparr>base = Some (3152519739159347 / 4503599627370496), bCoverPenalty = None,
          bCoverType = None, hunkeredPenalty = None, flankingBonus = None, rangePenalty = None,
          bDamage = Some 4, final = Some (3152519739159347 / 4503599627370496)\<rparr>)"
    unfolding calculateHitChance_def t
    by (simp add: l Let_def eval_combat getTileDirection_def emptyBreakdown_def)
  have s: "specRangedHitChance (grid duelGame) (heap duelGame 2) (heap duelGame 1)
       = 2026619832316723 / 4503599627370496"
    unfolding specRangedHitChance_def t
    by (simp add: c Let_def eval_combat getTileDirection_def)
  have e: "map_option (hit \<circ> snd) (executeAttack duelGame 2 1 Ranged (1 / 2)) = Some True"
    unfolding executeAttack_def h by (simp add: Let_def)
  have d: "map_option fst (calculateHitChance (grid duelGame) (heap duelGame 2) (heap duelGame 1) Ranged)
       \<noteq> Some (specRangedHitChance (grid duelGame) (heap duelGame 2) (heap duelGame 1))"
    unfolding h s by simp
  from t l c h s d e show ?thesis by blast
qed

text \<open>
  C1 as amended. For a ranged attack, the line-of-sight report exists, its cover penalty is
  non-positive, being the penalty of the target's cover from the attacker's direction (\<open>getCoverBetween\<close>)
  when the line is clear and 0 when it is blocked, and \<open>calculateHitChance\<close> returns the chance
  \<open>rangedAccuracy + coverPenalty\<close>, plus the cover penalty once more when the target is
  Hunkered and the penalty is nonzero, plus the flanking bonus when the attacker flanks the
  target, plus the range penalty \<open>-0.05\<close> when the Chebyshev distance is at least
  \<open>rangedRange - 1\<close>, clamped to \<open>[MIN_HIT_CHANCE, MAX_HIT_CHANCE]\<close>; the modifiers that apply
  are added to the base with JavaScript additions, from left to right. The breakdown holds the
  base, exactly the modifiers that were applied, the damage and the final chance.
\<close>

theorem calculateHitChance_ranged:
  "\<exists>l. checkLOS gr (fst (tile attacker)) (snd (tile attacker))
          (fst (tile target)) (snd (tile target)) = Some l
     \<and> coverPenalty l \<le> 0
     \<and> coverPenalty l =
         (if clear l then snd (getCoverBetween gr (tile attacker) (tile target)) else 0)
     \<and> (let cp = coverPenalty l;
             hunkered = (status target = Hunkered \<and> cp \<noteq> 0);
             flanked = checkFlanking (tile attacker) (tile target) (Some (facing target));
             nearMax = (tileDistance (tile attacker) (tile target) \<ge> rangedRange - 1);
             modifiers =
               (if cp \<noteq> 0 then [cp] else [])
               @ (if hunkered then [cp] else [])
               @ (if flanked then [FLANKING_BONUS] else [])
               @ (if nearMax then [roundDouble (- (5 / 100))] else []);
             chance = clamp (foldl dadd rangedAccuracy modifiers) MIN_HIT_CHANCE MAX_HIT_CHANCE
         in MIN_HIT_CHANCE \<le> chance \<and> chance \<le> MAX_HIT_CHANCE
            \<and> calculateHitChance gr attacker target Ranged =
                Some (chance,
                  \<lparr>base = Some rangedAccuracy,
                   bCoverPenalty = (if cp \<noteq> 0 then Some cp else None),
                   bCoverType = (if cp \<noteq> 0 then Some (losCoverType l) else None),
                   hunkeredPenalty = (if hunkered then Some cp else None),
                   flankingBonus = (if flanked then Some FLANKING_BONUS else None),
                   rangePenalty = (if nearMax then Some (roundDouble (- (5 / 100))) else None),
                   bDamage = Some rangedDamage,
                   final = Some chance\<rparr>))"
proof -
  let ?f = "checkFlanking (tile attacker) (tile target) (Some (facing target))"
  let ?r = "tileDistance (tile attacker) (tile target) \<ge> rangedRange - 1"
  from checkLOS_total [of gr "fst (tile attacker)" "snd (tile attacker)"
      "fst (tile target)" "snd (tile target)"]
  obtain l where l: "checkLOS gr (fst (tile attacker)) (snd (tile attacker))
          (fst (tile target)) (snd (tile target)) = Some l"
    and c: "clear l \<longrightarrow> coverPenalty l = snd (getCoverBetween gr (tile attacker) (tile target))"
    and b: "\<not> clear l \<longrightarrow> coverPenalty l = 0"
    by auto
  have cp: "coverPenalty l = (if clear l then snd (getCoverBetween gr (tile attacker) (tile target)) else 0)"
    using c b by simp
  have np: "coverPenalty l \<le> 0"
    unfolding cp using getCoverBetween_nonpos [of gr "tile attacker" "tile target"] by simp
  let ?sum = "foldl dadd rangedAccuracy
     ((if coverPenalty l \<noteq> 0 then [coverPenalty l] else [])
      @ (if status target = Hunkered \<and> coverPenalty l \<noteq> 0 then [coverPenalty l] else [])
      @ (if ?f then [FLANKING_BONUS] else [])
      @ (if ?r then [roundDouble (- (5 / 100))] else []))"
  have "calculateHitChance gr attacker target Ranged =
      Some (clamp ?sum MIN_HIT_CHANCE MAX_HIT_CHANCE,
            \<lparr>base = Some rangedAccuracy,
             bCoverPenalty = (if coverPenalty l \<noteq> 0 then Some (coverPenalty l) else None),
             bCoverType = (if coverPenalty l \<noteq> 0 then Some (losCoverType l) else None),
             hunkeredPenalty = (if status target = Hunkered \<and> coverPenalty l \<noteq> 0
                                then Some (coverPenalty l) else None),
             flankingBonus = (if ?f then Some FLANKING_BONUS else None),
             rangePenalty = (if ?r then Some (roundDouble (- (5 / 100))) else None),
             bDamage = Some rangedDamage,
             final = Some (clamp ?sum MIN_HIT_CHANCE MAX_HIT_CHANCE)\<rparr>)"
    by (simp add: calculateHitChance_def l Let_def emptyBreakdown_def)
  then show ?thesis
    unfolding Let_def
    using l np cp clamp_hit_chance [of ?sum] by blast
qed

theorem calculateHitChance_ranged_witness:
  "checkLOS (grid duelGame) 3 1 5 1
     = Some \<lparr>clear = True, coverPenalty = - (1 / 4), losCoverType = CoverHalf\<rparr>
   \<and> calculateHitChance (grid duelGame) (heap duelGame 0) (heap duelGame 1) Ranged =
       Some (2026619832316723 / 4503599627370496,
         \<lparr>base = Some (3152519739159347 / 4503599627370496),
          bCoverPenalty = Some (- (1 / 4)), bCoverType = Some CoverHalf,
          hunkeredPenalty = None, flankingBonus = None, rangePenalty = None,
          bDamage = Some 4, final = Some (2026619832316723 / 4503599627370496)\<rparr>)"
proof -
  have t: "tile (heap duelGame 0) = (3, 1)" "tile (heap duelGame 1) = (5, 1)"
    "status (heap duelGame 1) = Ready" "facing (heap duelGame 1) = (- 1, 0)"
    by (simp_all add: eval_units)
  have l: "checkLOS (grid duelGame) 3 1 5 1
     = Some \<lparr>clear = True, coverPenalty = - (1 / 4), losCoverType = CoverHalf\<rparr>"
    by (simp add: checkLOS_def bresenhamLine_def bresenhamLoop.simps eval_units eval_grid)
  have f: "\<not> checkFlanking (3, 1) (5, 1) (Some (- 1, 0))"
    "\<not> tileDistance (3, 1) (5, 1) \<ge> rangedRange - 1"
    by (simp_all add: checkFlanking_def tileDistance_def rangedRange_def getTileDirection_def)
  from calculateHitChance_ranged [of "grid duelGame" "heap duelGame 0" "heap duelGame 1"]
  obtain l' where a: "checkLOS (grid duelGame) 3 1 5 1 = Some l'"
    and b: "calculateHitChance (grid duelGame) (heap duelGame 0) (heap duelGame 1) Ranged =
      Some (clamp (foldl dadd rangedAccuracy
               ((if coverPenalty l' \<noteq> 0 then [coverPenalty l'] else [])
                @ (if Ready = Hunkered \<and> coverPenalty l' \<noteq> 0 then [coverPenalty l'] else [])
                @ (if checkFlanking (3, 1) (5, 1) (Some (- 1, 0)) then [FLANKING_BONUS] else [])
                @ (if tileDistance (3, 1) (5, 1) \<ge> rangedRange - 1
                   then [roundDouble (- (5 / 100))] else [])))
              MIN_HIT_CHANCE MAX_HIT_CHANCE,
            \<lparr>base = Some rangedAccuracy,
             bCoverPenalty = (if coverPenalty l' \<noteq> 0 then Some (coverPenalty l') else None),
             bCoverType = (if coverPenalty l' \<noteq> 0 then Some (losCoverType l') else None),
             hunkeredPenalty = (if Ready = Hunkered \<and> coverPenalty l' \<noteq> 0
                                then Some (coverPenalty l') else None),
             flankingBonus = (if checkFlanking (3, 1) (5, 1) (Some (- 1, 0))
                              then Some FLANKING_BONUS else None),
             rangePenalty = (if tileDistance (3, 1) (5, 1) \<ge> rangedRange - 1
                             then Some (roundDouble (- (5 / 100))) else None),
             bDamage = Some rangedDamage,
             final = Some (clamp (foldl dadd rangedAccuracy
               ((if coverPenalty l' \<noteq> 0 then [coverPenalty l'] else [])
                @ (if Ready = Hunkered \<and> coverPenalty l' \<noteq> 0 then [coverPenalty l'] else [])
                @ (if checkFlanking (3, 1) (5, 1) (Some (- 1, 0)) then [FLANKING_BONUS] else [])
                @ (if tileDistance (3, 1) (5, 1) \<ge> rangedRange - 1
                   then [roundDouble (- (5 / 100))] else [])))
              MIN_HIT_CHANCE MAX_HIT_CHANCE)\<rparr>)"
    unfolding t Let_def fst_conv snd_conv by blast
  from a have l': "l' = \<lparr>clear = True, coverPenalty = - (1 / 4), losCoverType = CoverHalf\<rparr>"
    unfolding l by simp
  have "calculateHitChance (grid duelGame) (heap duelGame 0) (heap duelGame 1) Ranged =
       Some (2026619832316723 / 4503599627370496,
         \<lparr>base = Some (3152519739159347 / 4503599627370496),
          bCoverPenalty = Some (- (1 / 4)), bCoverType = Some CoverHalf,
          hunkeredPenalty = None, flankingBonus = None, rangePenalty = None,
          bDamage = Some 4, final = Some (2026619832316723 / 4503599627370496)\<rparr>)"
    unfolding b l' by (simp add: f duel_chance rangedDamage_def double_constants)
  with l show ?thesis by simp
qed
section \<open>The path search returns\<close>

lemma reconstructPath_leads:
  "leads cf start k \<Longrightarrow> \<exists>ks. reconstructPath cf start k acc = Some (Some (ks @ acc))"
proof (induction arbitrary: acc rule: leads.induct)
  case leads_start
  have "reconstructPath cf start start acc = Some (Some ([] @ acc))"
    by (subst reconstructPath.simps) simp
  then show ?case by blast
next
  case (leads_step k p)
  from leads_step.IH [of "k # acc"] obtain ks
    where "reconstructPath cf start p (k # acc) = Some (Some (ks @ k # acc))" by blast
  then have "reconstructPath cf start k acc = Some (Some ((ks @ [k]) @ acc))"
    using leads_step.hyps by (subst reconstructPath.simps) simp
  then show ?case by blast
qed

lemma leads_upd:
  "leads cf start x \<Longrightarrow> nb \<notin> dom cf \<Longrightarrow> nb \<noteq> start \<Longrightarrow> leads (cf(nb \<mapsto> c)) start x"
proof (induction rule: leads.induct)
  case leads_start
  show ?case by (rule leads.leads_start)
next
  case (leads_step k p)
  from leads_step.hyps(2) leads_step.prems(1) have "k \<noteq> nb" by auto
  with leads_step.hyps(2) have "(cf(nb \<mapsto> c)) k = Some p" by simp
  from leads.leads_step [OF leads_step.hyps(1) this leads_step.IH [OF leads_step.prems]]
  show ?case .
qed

lemma pathNeighbors_props:
  assumes "start \<in> v" and "dom cf \<subseteq> v" and "\<forall>x\<in>set q. leads cf start x"
    and "leads cf start current"
    and "\<forall>k p. cf k = Some p \<longrightarrow> pathStepOk g endp allow p k"
  shows "case pathNeighbors g endp allow current nbs q v cf of
           (f, q', v', cf') \<Rightarrow>
             v \<subseteq> v' \<and> v' \<subseteq> v \<union> set nbs \<and> dom cf' \<subseteq> v'
             \<and> (\<forall>x\<in>set q'. leads cf' start x)
             \<and> (f \<longrightarrow> leads cf' start endp)
             \<and> (\<not> f \<longrightarrow> (v' = v \<and> q' = q) \<or> v \<subset> v')
             \<and> (\<forall>k p. cf' k = Some p \<longrightarrow> pathStepOk g endp allow p k)"
  using assms
proof (induction nbs arbitrary: q v cf)
  case Nil
  then show ?case by simp
next
  case (Cons nb nbs)
  show ?case
  proof (cases "nb \<in> v \<or> \<not> pathStepOk g endp allow current nb")
    case True
    then have "pathNeighbors g endp allow current (nb # nbs) q v cf
             = pathNeighbors g endp allow current nbs q v cf" by auto
    with Cons.IH [OF Cons.prems] show ?thesis by (auto split: prod.splits)
  next
    case False
    then have nv: "nb \<notin> v" and ok: "pathStepOk g endp allow current nb" by auto
    let ?v = "insert nb v" and ?cf = "cf(nb \<mapsto> current)"
    from nv Cons.prems have nd: "nb \<notin> dom cf" "nb \<noteq> start" by auto
    have lc: "leads ?cf start current" by (rule leads_upd [OF Cons.prems(4) nd])
    have ln: "leads ?cf start nb"
      by (rule leads.leads_step [OF nd(2) _ lc]) simp
    have lq: "\<forall>x\<in>set (q @ [nb]). leads ?cf start x"
      using Cons.prems(3) ln leads_upd [OF _ nd] by auto
    have p: "start \<in> ?v" "dom ?cf \<subseteq> ?v" using Cons.prems by auto
    have ed: "\<forall>k p. ?cf k = Some p \<longrightarrow> pathStepOk g endp allow p k"
      using Cons.prems(5) ok by auto
    show ?thesis
    proof (cases "fst nb = fst endp \<and> snd nb = snd endp")
      case True
      then have "nb = endp" by (simp add: prod_eq_iff)
      then have "pathNeighbors g endp allow current (nb # nbs) q v cf = (True, q, ?v, ?cf)"
        using nv ok by (simp add: Let_def)
      then show ?thesis using p ln \<open>nb = endp\<close> Cons.prems(3) leads_upd [OF _ nd] ed by auto
    next
      case False
      obtain f q' v' cf'
        where rr: "pathNeighbors g endp allow current nbs (q @ [nb]) ?v ?cf = (f, q', v', cf')"
        by (cases "pathNeighbors g endp allow current nbs (q @ [nb]) ?v ?cf") auto
      have "pathNeighbors g endp allow current (nb # nbs) q v cf
             = pathNeighbors g endp allow current nbs (q @ [nb]) ?v ?cf"
        using False nv ok by (auto simp: Let_def)
      then have eq: "pathNeighbors g endp allow current (nb # nbs) q v cf = (f, q', v', cf')"
        using rr by simp
      note ih = Cons.IH [OF p lq lc ed, unfolded rr prod.case]
      note i1 = ih [THEN conjunct1]
      note i2 = ih [THEN conjunct2, THEN conjunct1]
      note i3 = ih [THEN conjunct2, THEN conjunct2, THEN conjunct1]
      note i4 = ih [THEN conjunct2, THEN conjunct2, THEN conjunct2, THEN conjunct1]
      note i5 = ih [THEN conjunct2, THEN conjunct2, THEN conjunct2, THEN conjunct2, THEN conjunct1]
      note i7 = ih [THEN conjunct2, THEN conjunct2, THEN conjunct2, THEN conjunct2, THEN conjunct2,
          THEN conjunct2]
      from i1 nv have ps: "v \<subset> v'" by blast
      show ?thesis
        unfolding eq prod.case
      proof (intro conjI)
        show "v \<subseteq> v'" using i1 by blast
        show "v' \<subseteq> v \<union> set (nb # nbs)" using i2 by auto
        show "\<not> f \<longrightarrow> v' = v \<and> q' = q \<or> v \<subset> v'" using ps by blast
      qed (rule i3 i4 i5 i7)+
    qed
  qed
qed

text \<open>The search loop returns: each round marks a new tile of the grid or shortens the queue.\<close>

lemma pathLoop_total:
  assumes "start \<in> v" and "dom cf \<subseteq> v" and "\<forall>x\<in>set q. leads cf start x"
    and "\<forall>k p. cf k = Some p \<longrightarrow> pathStepOk g endp allow p k"
  shows "\<exists>f cf'. pathLoop g endp allow q v cf = Some (f, cf') \<and> (f \<longrightarrow> leads cf' start endp)
           \<and> (\<forall>k p. cf' k = Some p \<longrightarrow> pathStepOk g endp allow p k)"
  using assms
proof (induction "(card (inBounds g - v), length q)" arbitrary: q v cf
    rule: wf_induct_rule [OF wf_lex_prod [OF wf_less_than wf_less_than]])
  case 1
  note prems = "1.prems" and hyps = "1.hyps"
  show ?case
  proof (cases q)
    case Nil
    then have "pathLoop g endp allow q v cf = Some (False, cf)"
      by (subst pathLoop.simps) simp
    then show ?thesis using prems(4) by blast
  next
    case (Cons current rest)
    show ?thesis
    proof (cases "fst current = fst endp \<and> snd current = snd endp")
      case True
      then have "current = endp" by (simp add: prod_eq_iff)
      moreover have "pathLoop g endp allow q v cf = Some (True, cf)"
        using True Cons by (subst pathLoop.simps) simp
      ultimately show ?thesis using prems(3,4) Cons by auto
    next
      case False
      let ?nbs = "getNeighbors (fst current) (snd current) (gridWidth g) (gridHeight g)"
      obtain f q' v' cf' where r: "pathNeighbors g endp allow current ?nbs rest v cf = (f, q', v', cf')"
        by (cases "pathNeighbors g endp allow current ?nbs rest v cf") auto
      from prems(3) Cons have lr: "\<forall>x\<in>set rest. leads cf start x" "leads cf start current"
        by auto
      from pathNeighbors_props [OF prems(1,2) lr prems(4), where nbs = ?nbs] r
      have pr: "v \<subseteq> v'" "v' \<subseteq> v \<union> set ?nbs" "dom cf' \<subseteq> v'" "\<forall>x\<in>set q'. leads cf' start x"
        "f \<longrightarrow> leads cf' start endp" "\<not> f \<longrightarrow> (v' = v \<and> q' = rest) \<or> v \<subset> v'"
        "\<forall>k p. cf' k = Some p \<longrightarrow> pathStepOk g endp allow p k"
        by auto
      have unfold: "pathLoop g endp allow q v cf =
          (if f then Some (True, cf') else pathLoop g endp allow q' v' cf')"
        using False Cons r by (subst pathLoop.simps) (auto simp: Let_def)
      show ?thesis
      proof (cases f)
        case True
        with unfold pr(5,7) show ?thesis by auto
      next
        case nf: False
        have dec: "((card (inBounds g - v'), length q'), (card (inBounds g - v), length q))
                    \<in> less_than <*lex*> less_than"
        proof (cases "v' = v")
          case True
          with pr(6) nf have "q' = rest" by auto
          with True Cons show ?thesis by simp
        next
          case False
          with pr(1) obtain x where x: "x \<in> v'" "x \<notin> v" by blast
          with pr(2) getNeighbors_inBounds [of "fst current" "snd current" g]
          have "x \<in> inBounds g" by blast
          with x pr(1) have "inBounds g - v' \<subset> inBounds g - v" by blast
          then have "card (inBounds g - v') < card (inBounds g - v)"
            by (intro psubset_card_mono finite_Diff finite_inBounds)
          then show ?thesis by simp
        qed
        from prems(1) pr(1) have sv: "start \<in> v'" by blast
        from hyps [OF dec sv pr(3,4,7)] unfold nf show ?thesis by auto
      qed
    qed
  qed
qed




lemma pathNeighbors_finds:
  "endp \<in> set nbs \<Longrightarrow> endp \<notin> v \<Longrightarrow> pathStepOk g endp allow current endp \<Longrightarrow>
     \<exists>q' v' cf'. pathNeighbors g endp allow current nbs q v cf = (True, q', v', cf')
        \<and> cf' endp = Some current"
proof (induction nbs arbitrary: q v cf)
  case Nil
  then show ?case by simp
next
  case (Cons nb nbs)
  show ?case
  proof (cases "nb = endp")
    case True
    with Cons.prems show ?thesis by (simp add: Let_def)
  next
    case False
    with Cons.prems have e: "endp \<in> set nbs" by simp
    from False have ne: "\<not> (fst nb = fst endp \<and> snd nb = snd endp)" by (simp add: prod_eq_iff)
    show ?thesis
    proof (cases "nb \<in> v \<or> \<not> pathStepOk g endp allow current nb")
      case True
      then have "pathNeighbors g endp allow current (nb # nbs) q v cf
             = pathNeighbors g endp allow current nbs q v cf" by auto
      with Cons.IH [OF e Cons.prems(2,3)] show ?thesis by simp
    next
      case skip: False
      then have "pathNeighbors g endp allow current (nb # nbs) q v cf
             = pathNeighbors g endp allow current nbs (q @ [nb]) (insert nb v) (cf(nb \<mapsto> current))"
        using ne by (auto simp: Let_def)
      moreover from False Cons.prems(2) have "endp \<notin> insert nb v" by simp
      from Cons.IH [OF e this Cons.prems(3)]
      have "\<exists>q' v' cf'. pathNeighbors g endp allow current nbs (q @ [nb]) (insert nb v)
                 (cf(nb \<mapsto> current)) = (True, q', v', cf') \<and> cf' endp = Some current" .
      ultimately show ?thesis by simp
    qed
  qed
qed

lemma findPathBFS_one_step:
  assumes ne: "a \<noteq> b"
    and nb: "b \<in> set (getNeighbors (fst a) (snd a) (gridWidth g) (gridHeight g))"
    and w: "isWalkable g (fst b) (snd b)"
  shows "findPathBFS g a b allow = Some (Some [b]) \<longleftrightarrow> pathStepOk g b allow a b"
proof
  have ne': "\<not> (fst a = fst b \<and> snd a = snd b)" using ne by (simp add: prod_eq_iff)
  have dw: "(if allow then isWalkableIgnoreOccupant g (fst b) (snd b)
            else isWalkable g (fst b) (snd b))"
    using w by (auto simp: isWalkable_def isWalkableIgnoreOccupant_def split: option.splits)
  {
    assume ok: "pathStepOk g b allow a b"
    from pathNeighbors_finds [OF nb _ ok, of "{a}" "[]" Map.empty] ne
    obtain q' v' cf' where pn: "pathNeighbors g b allow a
        (getNeighbors (fst a) (snd a) (gridWidth g) (gridHeight g)) [] {a} Map.empty
          = (True, q', v', cf')" and cf: "cf' b = Some a" by auto
    have pl: "pathLoop g b allow [a] {a} Map.empty = Some (True, cf')"
      using ne' pn by (subst pathLoop.simps) (auto simp: Let_def)
    have "reconstructPath cf' a a [b] = Some (Some [b])"
      by (subst reconstructPath.simps) simp
    then have "reconstructPath cf' a b [] = Some (Some [b])"
      using ne cf by (subst reconstructPath.simps) simp
    then show "findPathBFS g a b allow = Some (Some [b])"
      using ne' dw pl by (auto simp: findPathBFS_def Let_def)
  }
  {
    assume r: "findPathBFS g a b allow = Some (Some [b])"
    have "\<exists>f cf'. pathLoop g b allow [a] {a} Map.empty = Some (f, cf')
          \<and> (f \<longrightarrow> leads cf' a b)
          \<and> (\<forall>k p. cf' k = Some p \<longrightarrow> pathStepOk g b allow p k)"
      by (rule pathLoop_total) (auto intro: leads.leads_start)
    then obtain f cf' where pl: "pathLoop g b allow [a] {a} Map.empty = Some (f, cf')"
      and l: "f \<longrightarrow> leads cf' a b"
      and ed: "\<forall>k p. cf' k = Some p \<longrightarrow> pathStepOk g b allow p k" by blast
    from r ne' dw pl have f: f and rc: "reconstructPath cf' a b [] = Some (Some [b])"
      by (auto simp: findPathBFS_def Let_def split: if_splits)
    from l f have "leads cf' a b" by simp
    then obtain p where p: "cf' b = Some p" "leads cf' a p"
      using ne by (cases rule: leads.cases) auto
    from rc p(1) ne have rc': "reconstructPath cf' a p [b] = Some (Some [b])"
      by (subst (asm) reconstructPath.simps) simp
    have "p = a"
    proof (rule ccontr)
      assume pa: "p \<noteq> a"
      with p(2) obtain p2 where p2: "cf' p = Some p2" "leads cf' a p2"
        by (cases rule: leads.cases) auto
      from rc' p2(1) pa have "reconstructPath cf' a p2 [p, b] = Some (Some [b])"
        by (subst (asm) reconstructPath.simps) simp
      moreover from reconstructPath_leads [OF p2(2), of "[p, b]"]
      obtain ks where "reconstructPath cf' a p2 [p, b] = Some (Some (ks @ [p, b]))" by blast
      ultimately show False by simp
    qed
    with p(1) ed show "pathStepOk g b allow a b" by blast
  }
qed

section \<open>The early returns of the path search\<close>

lemmas eval_walk = isWalkable_def isWalkableIgnoreOccupant_def getTile_def wallGrid_def openTile_def

text \<open>
  C8. \<open>_findPathBFS\<close> (and so \<open>findPath\<close> and \<open>findPathAllowDestination\<close>) returns the empty path,
  not \<open>null\<close>, when start equals end, whatever the state of that tile; for a destination
  other than the start it returns \<open>null\<close> when the destination fails its walkability test,
  which ignores the occupant exactly when the allow-occupied-destination flag is set.
\<close>

theorem findPath_early_returns:
  "findPathBFS g start start allow = Some (Some [])
   \<and> findPath g start start = Some (Some [])
   \<and> (start \<noteq> endp \<and> \<not> (if allow then isWalkableIgnoreOccupant g (fst endp) (snd endp)
                            else isWalkable g (fst endp) (snd endp))
        \<longrightarrow> findPathBFS g start endp allow = Some None)
   \<and> (start \<noteq> endp \<and> \<not> isWalkable g (fst endp) (snd endp)
        \<longrightarrow> findPath g start endp = Some None)"
  by (auto simp: findPath_def findPathBFS_def Let_def prod_eq_iff)

theorem findPath_early_returns_witness:
  "(3 :: int, 1 :: int) \<noteq> (5, 1)
   \<and> \<not> isWalkable (grid duelGame) 5 1 \<and> \<not> isWalkable (grid duelGame) 3 1
   \<and> isWalkableIgnoreOccupant (grid duelGame) 5 1
   \<and> findPath (grid duelGame) (3, 1) (3, 1) = Some (Some [])
   \<and> findPath (grid duelGame) (3, 1) (5, 1) = Some None
   \<and> findPathBFS (grid duelGame) (3, 1) (2, 1) True = Some None"
proof -
  have w: "\<not> isWalkable (grid duelGame) 5 1" "\<not> isWalkable (grid duelGame) 3 1"
    "isWalkableIgnoreOccupant (grid duelGame) 5 1" "\<not> isWalkableIgnoreOccupant (grid duelGame) 2 1"
    by (simp_all add: eval_walk duelGame_def setOccupant_def)
  note t = findPath_early_returns [of "grid duelGame" "(3, 1)" True "(2, 1)"]
    findPath_early_returns [of "grid duelGame" "(3, 1)" False "(5, 1)"]
  from t w show ?thesis by simp
qed

section \<open>Attack execution, death and action points\<close>

lemma calculateHitChance_total: "\<exists>c b. calculateHitChance gr a t ty = Some (c, b)"
proof (cases ty)
  case Ranged
  from checkLOS_total [of gr "fst (tile a)" "snd (tile a)" "fst (tile t)" "snd (tile t)"]
  obtain l where "checkLOS gr (fst (tile a)) (snd (tile a)) (fst (tile t)) (snd (tile t)) = Some l"
    by blast
  with Ranged show ?thesis by (simp add: calculateHitChance_def Let_def)
next
  case Melee
  then show ?thesis by (simp add: calculateHitChance_def Let_def)
next
  case OtherAttack
  then show ?thesis by (simp add: calculateHitChance_def)
qed

lemma getTile_clearOccupant:
  "getTile (clearOccupant gr c r) c' r' =
     (if c' = c \<and> r' = r then map_option (\<lambda>t. t\<lparr>occupant := None\<rparr>) (getTile gr c r)
      else getTile gr c' r')"
  by (auto simp: clearOccupant_def getTile_def split: option.splits)

lemmas attack_defs = executeAttack_def applyDamage_def setUnitDead_def faceTarget_def updUnit_def

text \<open>
  C7. An attack on a target whose tile lies inside the grid returns, and it kills exactly when
  it hits and the damage brings the target's hit points to 0 or below. After a killing blow the
  target's status is Dead (not alive, 0 hit points), the target has not moved, its tile has no
  occupant, and \<open>isWalkable\<close> on that tile answers the tile's \<open>walkable\<close> flag.
\<close>

theorem executeAttack_kill:
  assumes "getTile (grid g) (fst (tile (heap g target))) (snd (tile (heap g target))) \<noteq> None"
  shows "\<exists>g' res. executeAttack g attacker target attackType roll = Some (g', res)
     \<and> (killed res \<longleftrightarrow> hit res \<and> hp (heap g target) - damage res \<le> 0)
     \<and> (killed res \<longrightarrow>
          status (heap g' target) = Dead \<and> \<not> alive (heap g' target) \<and> hp (heap g' target) = 0
          \<and> tile (heap g' target) = tile (heap g target)
          \<and> map_option occupant
               (getTile (grid g') (fst (tile (heap g' target))) (snd (tile (heap g' target))))
             = Some None
          \<and> (isWalkable (grid g') (fst (tile (heap g' target))) (snd (tile (heap g' target)))
               \<longleftrightarrow> walkable (tiles (grid g) (fst (tile (heap g target)))
                                 (snd (tile (heap g target))))))"
proof -
  from calculateHitChance_total
  obtain c b where cb: "calculateHitChance (grid g) (heap g attacker) (heap g target) attackType
      = Some (c, b)" by blast
  from assms obtain t0 where t0: "getTile (grid g) (fst (tile (heap g target)))
      (snd (tile (heap g target))) = Some t0" by auto
  then have t0': "t0 = tiles (grid g) (fst (tile (heap g target))) (snd (tile (heap g target)))"
    by (auto simp: getTile_def split: if_splits)
  show ?thesis
  proof (cases "roll \<le> c")
    case False
    then show ?thesis by (simp add: attack_defs cb Let_def)
  next
    case True
    show ?thesis
    proof (cases "max 0 (hp (heap g target) - (if attackType = Ranged then rangedDamage else meleeDamage)) \<le> 0")
      case dead: True
      then show ?thesis
        using True t0 t0'
        by (auto simp: attack_defs cb Let_def getTile_clearOccupant isWalkable_def)
    next
      case alive: False
      then show ?thesis
        using True by (auto simp: attack_defs cb Let_def)
    qed
  qed
qed


lemmas eval_watch = woundedWatchGame_def watchGame_def setOverwatch_def setUnitStatus_def updUnit_def

lemma wounded_shot:
  "map_option (\<lambda>(g', res). (hit res, damage res)) (executeAttack woundedWatchGame 1 0 Ranged 0)
     = Some (True, 4)"
  by (simp add: executeAttack_def calculateHitChance_def checkLOS_def bresenhamLine_def
      bresenhamLoop.simps eval_watch eval_units eval_grid eval_combat Let_def
      applyDamage_def setUnitDead_def faceTarget_def)

theorem executeAttack_kill_witness:
  "getTile (grid woundedWatchGame) (fst (tile (heap woundedWatchGame 0)))
       (snd (tile (heap woundedWatchGame 0))) \<noteq> None
   \<and> tile (heap woundedWatchGame 0) = (3, 1)
   \<and> \<not> isWalkable (grid woundedWatchGame) 3 1
   \<and> map_option (\<lambda>(g', res). (killed res, status (heap g' 0),
          map_option occupant (getTile (grid g') 3 1), isWalkable (grid g') 3 1))
        (executeAttack woundedWatchGame 1 0 Ranged 0)
      = Some (True, Dead, Some None, True)"
proof -
  have t: "tile (heap woundedWatchGame 0) = (3, 1)" "hp (heap woundedWatchGame 0) = 4"
    by (simp_all add: eval_watch eval_units Let_def)
  have gr: "grid woundedWatchGame = grid duelGame"
    by (simp add: eval_watch Let_def)
  have b: "getTile (grid woundedWatchGame) (fst (tile (heap woundedWatchGame 0)))
       (snd (tile (heap woundedWatchGame 0))) \<noteq> None"
    unfolding t gr by (simp add: eval_units getTile_def)
  have w: "\<not> isWalkable (grid woundedWatchGame) 3 1"
    "walkable (tiles (grid woundedWatchGame) 3 1)"
    unfolding gr by (simp_all add: eval_units isWalkable_def getTile_def openTile_def)
  from executeAttack_kill [OF b, of 1 Ranged 0]
  obtain g' res where e: "executeAttack woundedWatchGame 1 0 Ranged 0 = Some (g', res)"
    and k: "killed res \<longleftrightarrow> hit res \<and> hp (heap woundedWatchGame 0) - damage res \<le> 0"
    and c: "killed res \<longrightarrow>
          status (heap g' 0) = Dead \<and> \<not> alive (heap g' 0) \<and> hp (heap g' 0) = 0
          \<and> tile (heap g' 0) = tile (heap woundedWatchGame 0)
          \<and> map_option occupant (getTile (grid g') (fst (tile (heap g' 0))) (snd (tile (heap g' 0))))
             = Some None
          \<and> (isWalkable (grid g') (fst (tile (heap g' 0))) (snd (tile (heap g' 0)))
               \<longleftrightarrow> walkable (tiles (grid woundedWatchGame) (fst (tile (heap woundedWatchGame 0)))
                                 (snd (tile (heap woundedWatchGame 0)))))"
    by blast
  from wounded_shot e have "hit res" "damage res = 4" by simp_all
  with k t have "killed res" by simp
  with c have c': "status (heap g' 0) = Dead" "tile (heap g' 0) = tile (heap woundedWatchGame 0)"
    "map_option occupant (getTile (grid g') (fst (tile (heap g' 0))) (snd (tile (heap g' 0))))
             = Some None"
    "isWalkable (grid g') (fst (tile (heap g' 0))) (snd (tile (heap g' 0)))
               \<longleftrightarrow> walkable (tiles (grid woundedWatchGame) (fst (tile (heap woundedWatchGame 0)))
                                 (snd (tile (heap woundedWatchGame 0))))"
    by blast+
  have tl: "tile (heap g' 0) = (3, 1)" using c'(2) t by simp
  have o: "map_option occupant (getTile (grid g') 3 1) = Some None"
    using c'(3) unfolding tl fst_conv snd_conv .
  have i: "isWalkable (grid g') 3 1"
    using c'(4) w(2) unfolding tl t fst_conv snd_conv by blast
  have "map_option (\<lambda>(g', res). (killed res, status (heap g' 0),
          map_option occupant (getTile (grid g') 3 1), isWalkable (grid g') 3 1))
        (executeAttack woundedWatchGame 1 0 Ranged 0)
      = Some (True, Dead, Some None, True)"
    unfolding e using \<open>killed res\<close> c'(1) o i by simp
  with b t w show ?thesis by blast
qed





section \<open>Overwatch\<close>

lemma overwatchLoop_filter:
  "overwatchLoop g toTile es acc = Some (acc @ filter (fires g toTile) es)"
proof (induction es arbitrary: acc)
  case Nil
  show ?case by simp
next
  case (Cons e es)
  from checkLOS_total [of "grid g" "fst (tile (heap g e))" "snd (tile (heap g e))"
      "fst toTile" "snd toTile"]
  obtain l where l: "checkLOS (grid g) (fst (tile (heap g e))) (snd (tile (heap g e)))
                 (fst toTile) (snd toTile) = Some l" by blast
  show ?case
    by (auto simp: Cons.IH fires_def l Let_def split: option.splits)
qed

text \<open>
  C2 as amended. \<open>checkOverwatch\<close> returns, and a unit is in the trigger list if and only if it
  is a living enemy of the mover with status Overwatch, the Chebyshev distance from it to
  \<open>toTile\<close> is at most the overwatch range, the line of sight from it to \<open>toTile\<close> is clear,
  and, when it has a recorded cone, the dot product of the vector from the watcher's tile to
  \<open>toTile\<close> (not normalised) with the cone is at least 0. \<open>fromTile\<close> plays no part.
\<close>

theorem checkOverwatch_triggers:
  "\<exists>ts. checkOverwatch g mover fromTile toTile = Some ts
     \<and> (\<forall>e. e \<in> set ts \<longleftrightarrow>
            e \<in> set (units g) \<and> alive (heap g e)
            \<and> faction (heap g e) = enemyFaction g (heap g mover)
            \<and> status (heap g e) = Overwatch
            \<and> tileDistance (tile (heap g e)) toTile \<le> OVERWATCH_range
            \<and> (case checkLOS (grid g) (fst (tile (heap g e))) (snd (tile (heap g e)))
                       (fst toTile) (snd toTile) of
                  None \<Rightarrow> False | Some l \<Rightarrow> clear l)
            \<and> (case overwatchCone (heap g e) of
                  None \<Rightarrow> True
                | Some cone \<Rightarrow>
                    0 \<le> (fst toTile - fst (tile (heap g e))) * fst cone
                          + (snd toTile - snd (tile (heap g e))) * snd cone))"
proof -
  have "checkOverwatch g mover fromTile toTile
        = Some (filter (fires g toTile) (getAliveUnits g (enemyFaction g (heap g mover))))"
    by (simp add: checkOverwatch_def overwatchLoop_filter)
  then show ?thesis
    by (auto simp: fires_def getAliveUnits_def)
qed

lemma watch_facts:
  "alive (heap watchGame 0)" "status (heap watchGame 0) = Overwatch"
  "faction (heap watchGame 0) = enemyFaction watchGame (heap watchGame 1)"
  "overwatchCone (heap watchGame 0) = Some (1, 0)" "tile (heap watchGame 0) = (3, 1)"
  "units watchGame = [0, 1, 2]" "grid watchGame = grid duelGame"
  "status (heap watchGame (Suc 0)) = Ready" "status (heap watchGame 2) = Ready"
  by (simp_all add: eval_watch eval_units enemyFaction_def Let_def)

lemma watch_los:
  "checkLOS (grid duelGame) 3 1 4 0
     = Some \<lparr>clear = True, coverPenalty = - (1 / 4), losCoverType = CoverHalf\<rparr>"
  "checkLOS (grid duelGame) 3 1 2 0
     = Some \<lparr>clear = True, coverPenalty = - (1 / 2), losCoverType = CoverFull\<rparr>"
  by (simp_all add: checkLOS_def bresenhamLine_def bresenhamLoop.simps eval_units eval_grid Let_def)

lemma watch_enemies:
  "getAliveUnits watchGame (enemyFaction watchGame (heap watchGame 1)) = [0, 2]"
  by (simp add: getAliveUnits_def enemyFaction_def eval_watch eval_units Let_def)

text \<open>
  C2 as stated fails: the watcher on (3, 1) with cone (1, 0) triggers on the step from (5, 0)
  to (4, 0) of an approaching enemy, although the movement direction (-1, 0) has a negative
  dot product with the cone.
\<close>

theorem checkOverwatch_movement_direction_counterexample:
  "checkOverwatch watchGame 1 (5, 0) (4, 0) = Some [0]
   \<and> alive (heap watchGame 0) \<and> status (heap watchGame 0) = Overwatch
   \<and> faction (heap watchGame 0) = enemyFaction watchGame (heap watchGame 1)
   \<and> overwatchCone (heap watchGame 0) = Some (1, 0)
   \<and> \<not> movementInCone (5, 0) (4, 0) (1, 0)"
proof -
  have "checkOverwatch watchGame 1 (5, 0) (4, 0) = Some [0]"
    unfolding checkOverwatch_def watch_enemies
    by (simp add: watch_facts watch_los tileDistance_def OVERWATCH_range_def Let_def)
  moreover have "\<not> movementInCone (5, 0) (4, 0) (1, 0)"
    by (simp add: movementInCone_def getTileDirection_def Let_def)
  ultimately show ?thesis using watch_facts by simp
qed

theorem checkOverwatch_triggers_witness:
  "map_option set (checkOverwatch watchGame 1 (5, 0) (4, 0)) = Some {0}
   \<and> map_option set (checkOverwatch watchGame 1 (1, 0) (2, 0)) = Some {}"
proof -
  let ?cond = "\<lambda>toTile e. e \<in> set (units watchGame) \<and> alive (heap watchGame e)
            \<and> faction (heap watchGame e) = enemyFaction watchGame (heap watchGame 1)
            \<and> status (heap watchGame e) = Overwatch
            \<and> tileDistance (tile (heap watchGame e)) toTile \<le> OVERWATCH_range
            \<and> (case checkLOS (grid watchGame) (fst (tile (heap watchGame e)))
                       (snd (tile (heap watchGame e))) (fst toTile) (snd toTile) of
                  None \<Rightarrow> False | Some l \<Rightarrow> clear l)
            \<and> (case overwatchCone (heap watchGame e) of
                  None \<Rightarrow> True
                | Some cone \<Rightarrow>
                    0 \<le> (fst toTile - fst (tile (heap watchGame e))) * fst cone
                          + (snd toTile - snd (tile (heap watchGame e))) * snd cone)"
  from checkOverwatch_triggers [of watchGame 1 "(5, 0)" "(4, 0)"]
  obtain ts where ts: "checkOverwatch watchGame 1 (5, 0) (4, 0) = Some ts"
    and m: "\<And>e. e \<in> set ts \<longleftrightarrow> ?cond (4, 0) e"
    by blast
  have "0 \<in> set ts"
    unfolding m by (simp add: watch_facts watch_los tileDistance_def OVERWATCH_range_def)
  moreover have "\<not> ?cond (4, 0) e" if ne: "e \<noteq> 0" for e
  proof -
    consider "e = 1" | "e = 2" | "e \<notin> set (units watchGame)"
      by (cases "e \<in> set (units watchGame)") (use ne in \<open>auto simp: watch_facts\<close>)
    then show ?thesis by cases (simp_all add: watch_facts)
  qed
  ultimately have "set ts = {0}" using m by blast
  moreover
  from checkOverwatch_triggers [of watchGame 1 "(1, 0)" "(2, 0)"]
  obtain ts' where ts': "checkOverwatch watchGame 1 (1, 0) (2, 0) = Some ts'"
    and m': "\<And>e. e \<in> set ts' \<longleftrightarrow> ?cond (2, 0) e"
    by blast
  have n': "\<not> ?cond (2, 0) e" for e
  proof -
    consider "e = 0" | "e = 1" | "e = 2" | "e \<notin> set (units watchGame)"
      by (cases "e \<in> set (units watchGame)") (auto simp: watch_facts)
    then show ?thesis by cases (simp_all add: watch_facts)
  qed
  have "\<forall>e. e \<notin> set ts'" unfolding m' by (rule allI, rule n')
  then have "set ts' = {}" by simp
  ultimately show ?thesis using ts ts' by simp
qed


section \<open>The overwatch cone of a unit that leaves overwatch\<close>

text \<open>
  C4. The code at a unit on overwatch that dies (through \<open>setUnitDead\<close>, or through a killing
  \<open>executeAttack\<close>) or that hunkers down: the status leaves Overwatch and the cone stays set,
  where \<open>executeOverwatchShot\<close> and \<open>resetActivations\<close> clear it.
\<close>

theorem death_keeps_overwatchCone:
  "status (heap watchGame 0) = Overwatch \<and> overwatchCone (heap watchGame 0) = Some (1, 0)
   \<and> status (heap (setUnitDead watchGame 0) 0) = Dead
   \<and> overwatchCone (heap (setUnitDead watchGame 0) 0) = Some (1, 0)
   \<and> map_option (\<lambda>(g', res). (killed res, status (heap g' 0), overwatchCone (heap g' 0)))
        (executeAttack woundedWatchGame 1 0 Ranged 0)
      = Some (True, Dead, Some (1, 0))
   \<and> status (heap (setHunker watchGame 0) 0) = Hunkered
   \<and> overwatchCone (heap (setHunker watchGame 0) 0) = Some (1, 0)"
  by (simp add: executeAttack_def calculateHitChance_def checkLOS_def bresenhamLine_def
      bresenhamLoop.simps eval_watch eval_units eval_grid eval_combat Let_def
      applyDamage_def setUnitDead_def faceTarget_def setHunker_def)

section \<open>Properties of the activation queue\<close>











section \<open>Movement range: optimality and completeness\<close>

lemma validPath_append:
  "validPath g a (ps @ qs) \<longleftrightarrow> validPath g a ps \<and> validPath g (last (a # ps)) qs"
  by (induction ps arbitrary: a) auto

lemma reach_0: "reach g s 0 t \<longleftrightarrow> t = s"
  by (auto simp: reach_def)

lemma reach_Suc: "reach g s (Suc n) t \<longleftrightarrow> (\<exists>a. reach g s n a \<and> legalStep g a t)"
proof
  assume "reach g s (Suc n) t"
  then obtain ps where ps: "validPath g s ps" "last (s # ps) = t" "length ps = Suc n"
    by (auto simp: reach_def)
  then obtain qs b where qs: "ps = qs @ [b]"
    by (cases ps rule: rev_cases) auto
  with ps have "validPath g s qs" "legalStep g (last (s # qs)) b" "b = t" "length qs = n"
    by (auto simp: validPath_append)
  then show "\<exists>a. reach g s n a \<and> legalStep g a t"
    unfolding reach_def by blast
next
  assume "\<exists>a. reach g s n a \<and> legalStep g a t"
  then obtain a qs where "validPath g s qs" "last (s # qs) = a" "length qs = n" "legalStep g a t"
    by (auto simp: reach_def)
  then have "validPath g s (qs @ [t]) \<and> last (s # qs @ [t]) = t \<and> length (qs @ [t]) = Suc n"
    by (auto simp: validPath_append)
  then show "reach g s (Suc n) t" unfolding reach_def by blast
qed

lemma isWalkable_inBounds:
  "isWalkable g c r \<Longrightarrow> 0 \<le> c \<and> c < gridWidth g \<and> 0 \<le> r \<and> r < gridHeight g"
  by (auto simp: isWalkable_def getTile_def split: if_splits)

lemma legalStep_iff_rangeStepOk:
  "legalStep g a b \<longleftrightarrow>
     b \<in> set (getNeighbors (fst a) (snd a) (gridWidth g) (gridHeight g)) \<and> rangeStepOk g a b"
proof -
  have a: "(fst a, snd a) = a" by simp
  have nb: "b \<in> set (getNeighbors (fst a) (snd a) (gridWidth g) (gridHeight g)) \<longleftrightarrow>
        0 \<le> fst b \<and> fst b < gridWidth g \<and> 0 \<le> snd b \<and> snd b < gridHeight g
        \<and> tileDistance a b = 1"
    unfolding getNeighbors_set a by simp
  have d: "fst b - fst a \<noteq> 0 \<and> snd b - snd a \<noteq> 0 \<longleftrightarrow> fst a \<noteq> fst b \<and> snd a \<noteq> snd b"
    by auto
  have r: "rangeStepOk g a b \<longleftrightarrow> isWalkable g (fst b) (snd b)
     \<and> (fst a \<noteq> fst b \<and> snd a \<noteq> snd b \<longrightarrow>
          isWalkableIgnoreOccupant g (fst b) (snd a) \<and> isWalkableIgnoreOccupant g (fst a) (snd b))"
    unfolding rangeStepOk_def Let_def d by auto
  show ?thesis
    unfolding legalStep_def nb r using isWalkable_inBounds [of g "fst b" "snd b"] by blast
qed

lemma rangeInv_skip:
  assumes inv: "rangeInv g s M dn (cur # rest) v r" and ge: "snd cur \<ge> M"
  shows "rangeInv g s M (dn @ [cur]) rest v (if 0 < snd cur then r @ [cur] else r)"
proof -
  from inv have srt: "\<forall>q\<in>set rest. snd cur \<le> snd q" "sorted (map snd rest)"
    by (auto simp: rangeInv_def)
  from inv have e1: "\<forall>e\<in>set dn. \<forall>q\<in>set (cur # rest). snd e \<le> snd q"
    and e3: "\<forall>q\<in>set (cur # rest). \<forall>q'\<in>set (cur # rest). snd q \<le> snd q' + 1"
    and J: "\<forall>e\<in>set dn. snd e < M \<longrightarrow>
            (\<forall>b. legalStep g (fst e) b \<longrightarrow> (\<exists>c'. (b, c') \<in> set (dn @ cur # rest) \<and> c' \<le> snd e + 1))"
    and rest: "r = filter (\<lambda>e. 0 < snd e) dn" "v = fst ` set (dn @ cur # rest)"
      "distinct (map fst (dn @ cur # rest))" "(s, 0) \<in> set (dn @ cur # rest)"
      "\<forall>e\<in>set (dn @ cur # rest). reach g s (nat (snd e)) (fst e)
            \<and> (snd e = 0 \<or> (0 < snd e \<and> snd e \<le> M))"
    unfolding rangeInv_def by blast+
  have J': "\<forall>e\<in>set (dn @ [cur]). snd e < M \<longrightarrow>
            (\<forall>b. legalStep g (fst e) b \<longrightarrow>
               (\<exists>c'. (b, c') \<in> set ((dn @ [cur]) @ rest) \<and> c' \<le> snd e + 1))"
    using J ge by auto
  show ?thesis
    unfolding rangeInv_def
  proof (intro conjI)
    show "\<forall>e\<in>set (dn @ [cur]). \<forall>q\<in>set rest. snd e \<le> snd q" using e1 srt by auto
    show "\<forall>q\<in>set rest. \<forall>q'\<in>set rest. snd q \<le> snd q' + 1" using e3 by auto
    show "\<forall>e\<in>set (dn @ [cur]). snd e < M \<longrightarrow>
            (\<forall>b. legalStep g (fst e) b \<longrightarrow>
               (\<exists>c'. (b, c') \<in> set ((dn @ [cur]) @ rest) \<and> c' \<le> snd e + 1))" by (rule J')
  qed (use rest srt in auto)
qed

lemma rangeInv_expand:
  assumes inv: "rangeInv g s M dn (cur # rest) v r" and lt: "snd cur < M"
    and s': "s' = fold (rangeVisit g cur)
                   (getNeighbors (fst (fst cur)) (snd (fst cur)) (gridWidth g) (gridHeight g))
                   (v, rest)"
  shows "rangeInv g s M (dn @ [cur]) (snd s') (fst s') (if 0 < snd cur then r @ [cur] else r)"
proof -
  let ?nbs = "getNeighbors (fst (fst cur)) (snd (fst cur)) (gridWidth g) (gridHeight g)"
  define new where "new = filter (\<lambda>n. n \<notin> v \<and> rangeStepOk g (fst cur) n) ?nbs"
  define newE where "newE = map (\<lambda>n. (n, snd cur + 1)) new"
  have s'': "fst s' = v \<union> set new" "snd s' = rest @ newE"
    unfolding s' fold_rangeVisit [OF getNeighbors_distinct] new_def newE_def by simp_all
  have new: "distinct new" "set new \<inter> v = {}" "\<forall>n\<in>set new. legalStep g (fst cur) n"
    unfolding new_def legalStep_iff_rangeStepOk using getNeighbors_distinct by auto
  have fstE: "map fst newE = new" "fst ` set newE = set new" and sndE: "\<forall>e\<in>set newE. snd e = snd cur + 1"
    unfolding newE_def by (auto simp: comp_def image_iff)
  from inv have srt: "\<forall>q\<in>set rest. snd cur \<le> snd q" "sorted (map snd rest)"
    by (auto simp: rangeInv_def)
  from inv have e1: "\<forall>e\<in>set dn. \<forall>q\<in>set (cur # rest). snd e \<le> snd q"
    and e3: "\<forall>q\<in>set (cur # rest). \<forall>q'\<in>set (cur # rest). snd q \<le> snd q' + 1"
    and J: "\<forall>e\<in>set dn. snd e < M \<longrightarrow>
            (\<forall>b. legalStep g (fst e) b \<longrightarrow> (\<exists>c'. (b, c') \<in> set (dn @ cur # rest) \<and> c' \<le> snd e + 1))"
    and r: "r = filter (\<lambda>e. 0 < snd e) dn" and v: "v = fst ` set (dn @ cur # rest)"
    and dist: "distinct (map fst (dn @ cur # rest))" and s0: "(s, 0) \<in> set (dn @ cur # rest)"
    and rc: "\<forall>e\<in>set (dn @ cur # rest). reach g s (nat (snd e)) (fst e)
            \<and> (snd e = 0 \<or> (0 < snd e \<and> snd e \<le> M))"
    unfolding rangeInv_def by blast+
  from rc have cur: "reach g s (nat (snd cur)) (fst cur)" "0 \<le> snd cur" by auto
  have old_le: "c' \<le> snd cur + 1" if "(b, c') \<in> set (dn @ cur # rest)" for b c'
    using that e1 e3 by fastforce
  show ?thesis
    unfolding rangeInv_def s''
  proof (intro conjI)
    show "(if 0 < snd cur then r @ [cur] else r) = filter (\<lambda>e. 0 < snd e) (dn @ [cur])"
      using r by simp
    show "v \<union> set new = fst ` set ((dn @ [cur]) @ rest @ newE)"
      using v fstE by (auto simp: image_Un)
    show "distinct (map fst ((dn @ [cur]) @ rest @ newE))"
      using dist new(1,2) v fstE by (auto simp: image_Un)
    show "(s, 0) \<in> set ((dn @ [cur]) @ rest @ newE)" using s0 by auto
    show "\<forall>e\<in>set ((dn @ [cur]) @ rest @ newE). reach g s (nat (snd e)) (fst e)
            \<and> (snd e = 0 \<or> (0 < snd e \<and> snd e \<le> M))"
    proof
      fix e assume e: "e \<in> set ((dn @ [cur]) @ rest @ newE)"
      show "reach g s (nat (snd e)) (fst e) \<and> (snd e = 0 \<or> (0 < snd e \<and> snd e \<le> M))"
      proof (cases "e \<in> set newE")
        case False
        with e rc show ?thesis by auto
      next
        case True
        then have ne: "fst e \<in> set new" "snd e = snd cur + 1" using fstE sndE by auto
        have n: "nat (snd cur + 1) = Suc (nat (snd cur))" using cur(2) by simp
        from ne(1) new(3) cur(1) have "reach g s (Suc (nat (snd cur))) (fst e)"
          unfolding reach_Suc by blast
        then show ?thesis using ne(2) n cur(2) lt by simp
      qed
    qed
    show "\<forall>e\<in>set (dn @ [cur]). \<forall>q\<in>set (rest @ newE). snd e \<le> snd q"
      using e1 srt sndE by fastforce
    show "sorted (map snd (rest @ newE))"
    proof -
      have "map snd newE = replicate (length new) (snd cur + 1)"
        unfolding newE_def by (simp add: comp_def map_replicate_const)
      then have "sorted (map snd newE)" by simp
      moreover have "\<forall>x\<in>set rest. \<forall>y\<in>set newE. snd x \<le> snd y"
        using e3 sndE by fastforce
      ultimately show ?thesis using srt(2) by (simp add: sorted_append)
    qed
    show "\<forall>q\<in>set (rest @ newE). \<forall>q'\<in>set (rest @ newE). snd q \<le> snd q' + 1"
    proof (intro ballI)
      fix q q' assume q: "q \<in> set (rest @ newE)" and q': "q' \<in> set (rest @ newE)"
      have "snd cur \<le> snd q'" using q' srt(1) sndE by auto
      moreover have "snd q \<le> snd cur + 1"
      proof (cases "q \<in> set rest")
        case True
        with e3 show ?thesis by simp
      next
        case False
        with q sndE show ?thesis by simp
      qed
      ultimately show "snd q \<le> snd q' + 1" by linarith
    qed
    show "\<forall>e\<in>set (dn @ [cur]). snd e < M \<longrightarrow>
            (\<forall>b. legalStep g (fst e) b \<longrightarrow>
               (\<exists>c'. (b, c') \<in> set ((dn @ [cur]) @ rest @ newE) \<and> c' \<le> snd e + 1))"
    proof (intro ballI impI allI)
      fix e b assume e: "e \<in> set (dn @ [cur])" "snd e < M" "legalStep g (fst e) b"
      show "\<exists>c'. (b, c') \<in> set ((dn @ [cur]) @ rest @ newE) \<and> c' \<le> snd e + 1"
      proof (cases "e \<in> set dn")
        case True
        with J e obtain c' where "(b, c') \<in> set (dn @ cur # rest)" "c' \<le> snd e + 1" by blast
        then show ?thesis by auto
      next
        case False
        with e have ec: "e = cur" by simp
        show ?thesis
        proof (cases "b \<in> v")
          case True
          then obtain c' where c': "(b, c') \<in> set (dn @ cur # rest)" unfolding v by force
          from old_le [OF c'] c' show ?thesis unfolding ec by auto
        next
          case False
          with e(3) have "b \<in> set new"
            unfolding ec new_def legalStep_iff_rangeStepOk by simp
          then have "(b, snd cur + 1) \<in> set newE" unfolding newE_def by auto
          then show ?thesis unfolding ec by auto
        qed
      qed
    qed
  qed
qed

lemma rangeLoop_inv:
  "rangeInv g s M dn queue visited reachable \<Longrightarrow>
     \<exists>dn' v'. rangeInv g s M dn' [] v' (rangeLoop g M queue visited reachable)"
proof (induction g M queue visited reachable arbitrary: dn rule: rangeLoop.induct)
  case (1 g moveRange visited reachable)
  then show ?case by auto
next
  case (2 g moveRange current rest visited reachable)
  let ?r = "if 0 < snd current then reachable @ [current] else reachable"
  show ?case
  proof (cases "moveRange \<le> snd current")
    case True
    from rangeInv_skip [OF "2.prems" True]
    have "rangeInv g s moveRange (dn @ [current]) rest visited ?r" .
    from "2.IH"(1) [OF refl True this] True show ?thesis by (simp add: Let_def)
  next
    case False
    define s' where "s' = fold (rangeVisit g current)
                   (getNeighbors (fst (fst current)) (snd (fst current)) (gridWidth g) (gridHeight g))
                   (visited, rest)"
    from False have lt: "snd current < moveRange" by simp
    from rangeInv_expand [OF "2.prems" lt s'_def]
    have "rangeInv g s moveRange (dn @ [current]) (snd s') (fst s') ?r" .
    from "2.IH"(2) [OF refl False s'_def this] False show ?thesis
      by (simp add: Let_def s'_def)
  qed
qed

lemma rangeInv_init: "rangeInv g s M [] [(s, 0)] {s} []"
  by (simp add: rangeInv_def reach_0)

lemma rangeInv_final:
  assumes inv: "rangeInv g s M dn [] v res"
  shows "distinct (map fst res)"
    and "(t, c) \<in> set res \<Longrightarrow> t \<noteq> s \<and> 0 < c \<and> c \<le> M \<and> reach g s (nat c) t"
    and "(t, c) \<in> set res \<Longrightarrow> reach g s n t \<Longrightarrow> c \<le> int n"
    and "reach g s n t \<Longrightarrow> int n \<le> M \<Longrightarrow> t \<noteq> s \<Longrightarrow> \<exists>c. (t, c) \<in> set res"
proof -
  from inv have res: "res = filter (\<lambda>e. 0 < snd e) dn" and dist: "distinct (map fst dn)"
    and s0: "(s, 0) \<in> set dn"
    and rc: "\<forall>e\<in>set dn. reach g s (nat (snd e)) (fst e)
            \<and> (snd e = 0 \<or> (0 < snd e \<and> snd e \<le> M))"
    and J: "\<forall>e\<in>set dn. snd e < M \<longrightarrow>
            (\<forall>b. legalStep g (fst e) b \<longrightarrow> (\<exists>c'. (b, c') \<in> set dn \<and> c' \<le> snd e + 1))"
    unfolding rangeInv_def by simp_all
  have uniq: "c = c'" if "(t, c) \<in> set dn" "(t, c') \<in> set dn" for t c c'
    using dist that by (meson eq_key_imp_eq_value)
  have K: "int n \<le> M \<Longrightarrow> reach g s n t \<Longrightarrow> \<exists>c. (t, c) \<in> set dn \<and> c \<le> int n" for n t
  proof (induction n arbitrary: t)
    case 0
    then show ?case using s0 by (auto simp: reach_0)
  next
    case (Suc n)
    from Suc.prems(2) obtain a where a: "reach g s n a" "legalStep g a t"
      unfolding reach_Suc by blast
    from Suc.prems(1) have "int n \<le> M" by simp
    from Suc.IH [OF this a(1)] obtain c where c: "(a, c) \<in> set dn" "c \<le> int n" by blast
    with Suc.prems(1) have "c < M" by simp
    with J c(1) a(2) obtain c' where "(t, c') \<in> set dn" "c' \<le> c + 1" by fastforce
    with c(2) show ?case by auto
  qed
  show "distinct (map fst res)" unfolding res using dist by (simp add: distinct_map_filter)
  show "t \<noteq> s \<and> 0 < c \<and> c \<le> M \<and> reach g s (nat c) t" if "(t, c) \<in> set res"
  proof -
    from that have m: "(t, c) \<in> set dn" "0 < c" unfolding res by auto
    with rc have "reach g s (nat c) t" "c \<le> M" by fastforce+
    moreover have "t \<noteq> s" using uniq [OF m(1)] s0 m(2) by auto
    ultimately show ?thesis using m(2) by simp
  qed
  show "c \<le> int n" if "(t, c) \<in> set res" "reach g s n t"
  proof (cases "int n \<le> M")
    case True
    from K [OF True that(2)] obtain c' where "(t, c') \<in> set dn" "c' \<le> int n" by blast
    moreover from that(1) have "(t, c) \<in> set dn" unfolding res by simp
    ultimately show ?thesis using uniq by blast
  next
    case False
    from that(1) have "(t, c) \<in> set dn" "0 < c" unfolding res by auto
    with rc have "c \<le> M" by fastforce
    with False show ?thesis by simp
  qed
  show "\<exists>c. (t, c) \<in> set res" if "reach g s n t" "int n \<le> M" "t \<noteq> s"
  proof -
    from K [OF that(2,1)] obtain c where c: "(t, c) \<in> set dn" by blast
    with rc have "reach g s (nat c) t" "c = 0 \<or> 0 < c" by fastforce+
    with that(3) have "0 < c" by (auto simp: reach_0)
    with c show ?thesis unfolding res by auto
  qed
qed

text \<open>
  C3 as amended. The tiles returned by \<open>getMovementRange\<close> are pairwise different and none is
  the origin; the cost \<open>c\<close> reported for a returned tile satisfies \<open>0 < c \<le> M\<close> and is the
  true shortest cost: some path of legal steps (8-directional, onto walkable tiles, diagonal
  steps subject to the corner rule) from the origin to the tile has length \<open>c\<close> and none is
  shorter. Every tile other than the origin that some path of at most \<open>M\<close> legal steps reaches
  is returned.
\<close>

theorem getMovementRange_optimal:
  "distinct (map fst (getMovementRange g sc sr M))
   \<and> (\<forall>e\<in>set (getMovementRange g sc sr M).
        fst e \<noteq> (sc, sr) \<and> 0 < snd e \<and> snd e \<le> M
        \<and> (\<exists>ps. validPath g (sc, sr) ps \<and> last ((sc, sr) # ps) = fst e
                 \<and> int (length ps) = snd e)
        \<and> (\<forall>ps. validPath g (sc, sr) ps \<and> last ((sc, sr) # ps) = fst e
                 \<longrightarrow> snd e \<le> int (length ps)))
   \<and> (\<forall>ps. validPath g (sc, sr) ps \<and> int (length ps) \<le> M
              \<and> last ((sc, sr) # ps) \<noteq> (sc, sr)
          \<longrightarrow> last ((sc, sr) # ps) \<in> fst ` set (getMovementRange g sc sr M))"
proof -
  let ?s = "(sc, sr)"
  let ?res = "getMovementRange g sc sr M"
  from rangeLoop_inv [OF rangeInv_init [of g ?s M]]
  obtain dn v where inv: "rangeInv g ?s M dn [] v ?res"
    unfolding getMovementRange_def by blast
  note fin = rangeInv_final [OF inv]
  have a: "fst e \<noteq> ?s \<and> 0 < snd e \<and> snd e \<le> M
        \<and> (\<exists>ps. validPath g ?s ps \<and> last (?s # ps) = fst e \<and> int (length ps) = snd e)
        \<and> (\<forall>ps. validPath g ?s ps \<and> last (?s # ps) = fst e \<longrightarrow> snd e \<le> int (length ps))"
    if e: "e \<in> set ?res" for e
  proof -
    from e have e': "(fst e, snd e) \<in> set ?res" by simp
    from fin(2) [OF e'] have b: "fst e \<noteq> ?s" "0 < snd e" "snd e \<le> M"
      and r: "reach g ?s (nat (snd e)) (fst e)" by blast+
    from r obtain ps where "validPath g ?s ps" "last (?s # ps) = fst e" "length ps = nat (snd e)"
      unfolding reach_def by blast
    with b(2) have ex: "\<exists>ps. validPath g ?s ps \<and> last (?s # ps) = fst e \<and> int (length ps) = snd e"
      by (intro exI [of _ ps]) simp
    have "snd e \<le> int (length ps)" if "validPath g ?s ps" "last (?s # ps) = fst e" for ps
    proof -
      from that have "reach g ?s (length ps) (fst e)" unfolding reach_def by blast
      from fin(3) [OF e' this] show ?thesis .
    qed
    with b ex show ?thesis by blast
  qed
  have c: "last (?s # ps) \<in> fst ` set ?res"
    if "validPath g ?s ps" "int (length ps) \<le> M" "last (?s # ps) \<noteq> ?s" for ps
  proof -
    from that(1) have "reach g ?s (length ps) (last (?s # ps))" unfolding reach_def by blast
    from fin(4) [OF this that(2,3)] show ?thesis by force
  qed
  from fin(1) a c show ?thesis by blast
qed

lemmas eval_range = getMovementRange_def getNeighbors_def rangeVisit_def rangeStepOk_def
  movement_def Let_def

lemma duel_range:
  "getMovementRange (grid duelGame) 3 1 movement =
     [((3, 0), 1), ((3, 2), 1), ((2, 0), 2), ((4, 0), 2), ((2, 2), 2),
      ((4, 2), 2), ((1, 0), 3), ((5, 0), 3), ((1, 2), 3), ((5, 2), 3),
      ((0, 0), 4), ((1, 1), 4), ((0, 2), 4)]"
  by (simp add: eval_range eval_walk eval_units)

lemmas eval_path = legalStep_def tileDistance_def eval_walk eval_units

text \<open>
  C3 as stated fails at the origin: its true cost is 0 (the empty path), which is at most the
  movement allowance, and it is not in the result, since entries of cost 0 are not reported.
\<close>

theorem getMovementRange_omits_origin_counterexample:
  "validPath (grid duelGame) (3, 1) []
   \<and> last [(3 :: int, 1 :: int)] = (3, 1)
   \<and> int (length ([] :: pos list)) \<le> movement
   \<and> (3, 1) \<notin> fst ` set (getMovementRange (grid duelGame) 3 1 movement)"
  unfolding duel_range by (simp add: movement_def)

theorem getMovementRange_optimal_witness:
  "((1, 1), 4) \<in> set (getMovementRange (grid duelGame) 3 1 movement)
   \<and> validPath (grid duelGame) (3, 1) [(3, 0), (2, 0), (1, 0), (1, 1)]
   \<and> \<not> validPath (grid duelGame) (3, 1) [(3, 0), (2, 0), (1, 1)]
   \<and> validPath (grid duelGame) (3, 1) [(3, 0), (4, 0)]
   \<and> (4, 0) \<in> fst ` set (getMovementRange (grid duelGame) 3 1 movement)"
proof -
  let ?o = "(3, 1) :: pos"
  let ?p3 = "[(3, 0), (2, 0), (1, 1)] :: pos list"
  let ?p2 = "[(3, 0), (4, 0)] :: pos list"
  note t = getMovementRange_optimal [of "grid duelGame" 3 1 movement]
  have m: "((1, 1), 4) \<in> set (getMovementRange (grid duelGame) 3 1 movement)"
    unfolding duel_range by simp
  have p4: "validPath (grid duelGame) ?o [(3, 0), (2, 0), (1, 0), (1, 1)]"
    by (simp add: eval_path)
  from t m have "\<forall>ps. validPath (grid duelGame) ?o ps \<and> last (?o # ps) = (1, 1)
                 \<longrightarrow> 4 \<le> int (length ps)"
    by fastforce
  then have "validPath (grid duelGame) ?o ?p3 \<and> last (?o # ?p3) = (1, 1)
      \<longrightarrow> 4 \<le> int (length ?p3)"
    by (rule spec)
  then have n3: "\<not> validPath (grid duelGame) ?o ?p3" by simp
  have p2: "validPath (grid duelGame) ?o ?p2"
    by (simp add: eval_path)
  from t have "\<forall>ps. validPath (grid duelGame) ?o ps \<and> int (length ps) \<le> movement
              \<and> last (?o # ps) \<noteq> ?o
          \<longrightarrow> last (?o # ps) \<in> fst ` set (getMovementRange (grid duelGame) 3 1 movement)"
    by blast
  then have "validPath (grid duelGame) ?o ?p2 \<and> int (length ?p2) \<le> movement
              \<and> last (?o # ?p2) \<noteq> ?o
          \<longrightarrow> last (?o # ?p2) \<in> fst ` set (getMovementRange (grid duelGame) 3 1 movement)"
    by (rule spec)
  with p2 have r: "(4, 0) \<in> fst ` set (getMovementRange (grid duelGame) 3 1 movement)"
    by (simp add: movement_def)
  from m p4 n3 p2 r show ?thesis by blast
qed

lemma getMovementRange_one_step:
  "b \<in> fst ` set (getMovementRange g (fst a) (snd a) 1) \<longleftrightarrow> legalStep g a b"
proof -
  from rangeLoop_inv [OF rangeInv_init [of g a 1]]
  obtain dn v where inv: "rangeInv g a 1 dn [] v (getMovementRange g (fst a) (snd a) 1)"
    unfolding getMovementRange_def by auto
  note fin = rangeInv_final [OF inv]
  show ?thesis
  proof
    assume "b \<in> fst ` set (getMovementRange g (fst a) (snd a) 1)"
    then obtain c where c: "(b, c) \<in> set (getMovementRange g (fst a) (snd a) 1)" by force
    from fin(2) [OF c] have c1: "0 < c" "c \<le> 1" and rb: "reach g a (nat c) b" by blast+
    from c1 have "nat c = Suc 0" by simp
    with rb have "reach g a (Suc 0) b" by simp
    then show "legalStep g a b" by (simp add: reach_Suc reach_0)
  next
    assume l: "legalStep g a b"
    then have "reach g a (Suc 0) b" by (simp add: reach_Suc reach_0)
    moreover from l have "b \<noteq> a" by (auto simp: legalStep_def tileDistance_def)
    ultimately obtain c where "(b, c) \<in> set (getMovementRange g (fst a) (snd a) 1)"
      using fin(4) [of "Suc 0" b] by auto
    then show "b \<in> fst ` set (getMovementRange g (fst a) (snd a) 1)" by force
  qed
qed

section \<open>The corner rule of the two searches\<close>

text \<open>
  C5. For diagonally adjacent tiles A and B with B walkable, the neighbour test of
  \<open>getMovementRange\<close> and the neighbour test of \<open>_findPathBFS\<close> (whatever the destination and the
  allow-occupied-destination flag) both accept the step from A to B exactly when the two
  orthogonal tiles next to A in B's direction, \<open>(B.col, A.row)\<close> and \<open>(A.col, B.row)\<close>, are
  walkable ignoring occupants, so the two functions apply the same rule. Accordingly
  \<open>getMovementRange\<close> from A with allowance 1 returns B, and the path search from A to B returns
  the one-step path \<open>[B]\<close>, exactly when both those tiles are walkable ignoring occupants.
\<close>

theorem corner_rule_shared:
  assumes "\<bar>fst b - fst a\<bar> = 1" and "\<bar>snd b - snd a\<bar> = 1"
    and "isWalkable g (fst b) (snd b)"
  shows "(rangeStepOk g a b \<longleftrightarrow>
           isWalkableIgnoreOccupant g (fst b) (snd a) \<and> isWalkableIgnoreOccupant g (fst a) (snd b))
    \<and> (pathStepOk g endp allow a b \<longleftrightarrow>
           isWalkableIgnoreOccupant g (fst b) (snd a) \<and> isWalkableIgnoreOccupant g (fst a) (snd b))
    \<and> (rangeStepOk g a b \<longleftrightarrow> pathStepOk g endp allow a b)
    \<and> (b \<in> fst ` set (getMovementRange g (fst a) (snd a) 1) \<longleftrightarrow>
           isWalkableIgnoreOccupant g (fst b) (snd a) \<and> isWalkableIgnoreOccupant g (fst a) (snd b))
    \<and> (findPathBFS g a b allow = Some (Some [b]) \<longleftrightarrow>
           isWalkableIgnoreOccupant g (fst b) (snd a) \<and> isWalkableIgnoreOccupant g (fst a) (snd b))"
proof -
  let ?corner = "isWalkableIgnoreOccupant g (fst b) (snd a)
                 \<and> isWalkableIgnoreOccupant g (fst a) (snd b)"
  have ne: "fst b - fst a \<noteq> 0" "snd b - snd a \<noteq> 0" using assms(1,2) by auto
  then have ab: "a \<noteq> b" by auto
  have w: "isWalkableIgnoreOccupant g (fst b) (snd b)"
    using assms(3) by (auto simp: isWalkable_def isWalkableIgnoreOccupant_def split: option.splits)
  have r: "rangeStepOk g a b \<longleftrightarrow> ?corner"
    using ne assms(3) by (simp add: rangeStepOk_def Let_def)
  have p: "pathStepOk g e allow a b \<longleftrightarrow> ?corner" for e
    using ne assms(3) w by (auto simp: pathStepOk_def Let_def)
  have d: "tileDistance (fst a, snd a) b = 1"
    using assms(1,2) by (simp add: tileDistance_def abs_minus_commute)
  have nb: "b \<in> set (getNeighbors (fst a) (snd a) (gridWidth g) (gridHeight g))"
    unfolding getNeighbors_set using isWalkable_inBounds [OF assms(3)] d by simp
  have m: "b \<in> fst ` set (getMovementRange g (fst a) (snd a) 1) \<longleftrightarrow> ?corner"
    unfolding getMovementRange_one_step legalStep_iff_rangeStepOk using nb r by simp
  have f: "findPathBFS g a b allow = Some (Some [b]) \<longleftrightarrow> ?corner"
    unfolding findPathBFS_one_step [OF ab nb assms(3)] by (rule p)
  from r p m f show ?thesis by simp
qed

theorem corner_rule_shared_witness:
  "\<bar>fst (4 :: int, 0 :: int) - fst (3 :: int, 1 :: int)\<bar> = 1
   \<and> \<bar>snd (4 :: int, 0 :: int) - snd (3 :: int, 1 :: int)\<bar> = 1
   \<and> isWalkable wallGrid 4 0 \<and> isWalkable wallGrid 1 1
   \<and> \<not> isWalkableIgnoreOccupant wallGrid 4 1
   \<and> \<not> rangeStepOk wallGrid (3, 1) (4, 0) \<and> \<not> pathStepOk wallGrid (4, 0) False (3, 1) (4, 0)
   \<and> (4, 0) \<notin> fst ` set (getMovementRange wallGrid 3 1 1)
   \<and> findPathBFS wallGrid (3, 1) (4, 0) False \<noteq> Some (Some [(4, 0)])
   \<and> rangeStepOk wallGrid (0, 0) (1, 1) \<and> pathStepOk wallGrid (5, 2) True (0, 0) (1, 1)
   \<and> (1, 1) \<in> fst ` set (getMovementRange wallGrid 0 0 1)
   \<and> findPathBFS wallGrid (0, 0) (1, 1) True = Some (Some [(1, 1)])"
proof -
  have w: "isWalkable wallGrid (fst (4, 0)) (snd (4, 0))" "isWalkable wallGrid (fst (1, 1)) (snd (1, 1))"
    by (simp_all add: eval_walk)
  have n: "\<not> isWalkableIgnoreOccupant wallGrid 4 1" "isWalkableIgnoreOccupant wallGrid 1 0"
    "isWalkableIgnoreOccupant wallGrid 0 1"
    by (simp_all add: eval_walk)
  have "\<not> rangeStepOk wallGrid (3, 1) (4, 0) \<and> \<not> pathStepOk wallGrid (4, 0) False (3, 1) (4, 0)
      \<and> (4, 0) \<notin> fst ` set (getMovementRange wallGrid 3 1 1)
      \<and> findPathBFS wallGrid (3, 1) (4, 0) False \<noteq> Some (Some [(4, 0)])"
    using corner_rule_shared [of "(4, 0)" "(3, 1)" wallGrid "(4, 0)" False] w n by simp
  moreover
  have "rangeStepOk wallGrid (0, 0) (1, 1) \<and> pathStepOk wallGrid (5, 2) True (0, 0) (1, 1)
      \<and> (1, 1) \<in> fst ` set (getMovementRange wallGrid 0 0 1)
      \<and> findPathBFS wallGrid (0, 0) (1, 1) True = Some (Some [(1, 1)])"
    using corner_rule_shared [of "(1, 1)" "(0, 0)" wallGrid "(5, 2)" True] w n by simp
  ultimately show ?thesis using w n by simp
qed

end
